theory Spec2Isabelle
  imports Main
begin

section \<open>JavaScript strings\<close>

text \<open>
  A string is a list of code units; the model covers code units below 256. The white
  space of \<open>\s\<close>, \<open>trim\<close>, \<open>trimLeft\<close> and \<open>trimStart\<close> in that range is TAB, LF, VT,
  FF, CR, SPACE and NBSP.
\<close>

definition isWhiteSpace :: "char \<Rightarrow> bool" where
  "isWhiteSpace c = (c = CHR 0x09 \<or> c = CHR 0x0A \<or> c = CHR 0x0B \<or> c = CHR 0x0C
     \<or> c = CHR 0x0D \<or> c = CHR '' '' \<or> c = CHR 0xA0)"

definition isDigit :: "char \<Rightarrow> bool" where
  "isDigit c = (48 \<le> (of_char c :: nat) \<and> (of_char c :: nat) \<le> 57)"

definition isUpper :: "char \<Rightarrow> bool" where
  "isUpper c = (65 \<le> (of_char c :: nat) \<and> (of_char c :: nat) \<le> 90)"

definition trimLeft :: "string \<Rightarrow> string" where
  "trimLeft s = dropWhile isWhiteSpace s"

definition trim :: "string \<Rightarrow> string" where
  "trim s = rev (dropWhile isWhiteSpace (rev (dropWhile isWhiteSpace s)))"

definition startsWith :: "string \<Rightarrow> string \<Rightarrow> bool" where
  "startsWith s p = (take (length p) s = p)"

definition endsWith :: "string \<Rightarrow> string \<Rightarrow> bool" where
  "endsWith s p = (length p \<le> length s \<and> drop (length s - length p) s = p)"

definition substring :: "string \<Rightarrow> nat \<Rightarrow> string" where
  "substring s n = drop n s"

text \<open>\<open>s.split(c)\<close> for a one-character separator: never empty, \<open>''''\<close> gives \<open>['''']\<close>.\<close>

fun split :: "char \<Rightarrow> string \<Rightarrow> string list" where
  "split c [] = [[]]"
| "split c (x # xs) =
     (if x = c then [] # split c xs
      else (case split c xs of [] \<Rightarrow> [[x]] | p # ps \<Rightarrow> (x # p) # ps))"

text \<open>\<open>Number.prototype.toString\<close> on a non-negative integer, and on an integer.\<close>

definition digitChar :: "nat \<Rightarrow> char" where
  "digitChar d = char_of (48 + d)"

function natToString :: "nat \<Rightarrow> string" where
  "natToString n = (if n < 10 then [digitChar n] else natToString (n div 10) @ [digitChar (n mod 10)])"
  by pat_completeness auto
termination
  by (relation "measure id") auto

declare natToString.simps [simp del]

definition intToString :: "int \<Rightarrow> string" where
  "intToString i = (if i < 0 then CHR ''-'' # natToString (nat (- i)) else natToString (nat i))"

section \<open>Regular expressions with backtracking\<close>

text \<open>
  The matcher returns, for a pattern and a subject, the remainders of the subject after
  every way the pattern can match a prefix of it, in the order in which a backtracking
  matcher tries them: the first entry is the match JavaScript reports. \<open>Opt\<close> and \<open>Star\<close>
  are greedy; an iteration of \<open>Star\<close> that consumes nothing is rejected, as in
  ECMAScript.
\<close>

datatype regex =
    Sym "char \<Rightarrow> bool"
  | Seq regex regex
  | Alt regex regex
  | Opt regex
  | Star regex

function ms :: "regex \<Rightarrow> string \<Rightarrow> string list" where
  "ms (Sym p) s = (case s of [] \<Rightarrow> [] | c # cs \<Rightarrow> if p c then [cs] else [])"
| "ms (Seq a b) s = concat (map (ms b) (ms a s))"
| "ms (Alt a b) s = ms a s @ ms b s"
| "ms (Opt a) s = ms a s @ [s]"
| "ms (Star a) s =
     concat (map (\<lambda>t. if length t < length s then ms (Star a) t else []) (ms a s)) @ [s]"
  by pat_completeness auto
termination
  by (relation "inv_image (less_than <*lex*> less_than) (\<lambda>(r, s). (size r, length s))") auto

declare ms.simps(5) [simp del]

definition Plus :: "regex \<Rightarrow> regex" where
  "Plus a = Seq a (Star a)"

definition Lit :: "char \<Rightarrow> regex" where
  "Lit c = Sym (\<lambda>x. x = c)"

text \<open>\<open>\s{0,4}\<close>, greedy: \<open>(?:\s(?:\s(?:\s(?:\s)?)?)?)?\<close>.\<close>

definition ws04 :: regex where
  "ws04 = Opt (Seq (Sym isWhiteSpace) (Opt (Seq (Sym isWhiteSpace)
            (Opt (Seq (Sym isWhiteSpace) (Opt (Sym isWhiteSpace)))))))"

text \<open>
  \<open>subject.match(/^.../g)\<close>: the pattern is anchored at index 0 and the flag \<open>m\<close> is
  absent, so the array holds the match at index 0 and nothing else; \<open>null\<close> is the empty
  list.
\<close>

definition matchAnchored :: "regex \<Rightarrow> string \<Rightarrow> string list" where
  "matchAnchored r s =
     (case ms r s of [] \<Rightarrow> [] | t # _ \<Rightarrow> [take (length s - length t) s])"

section \<open>The editor\<close>

type_synonym Editor = "string list"

record EditorPosition =
  line :: nat
  ch :: nat

record EditorRange =
  range_from :: EditorPosition
  range_to :: EditorPosition

record EditorChange =
  change_text :: string
  change_from :: EditorPosition
  change_to :: EditorPosition

record HeadingCache =
  heading :: string
  level :: int
  start_line :: nat

text \<open>\<open>editor.getLine(n)\<close>: \<open>None\<close> is \<open>undefined\<close>, past the last line.\<close>

definition getLine :: "Editor \<Rightarrow> nat \<Rightarrow> string option" where
  "getLine e n = (if n < length e then Some (e ! n) else None)"

text \<open>Positions are clipped to the document, as the editor does.\<close>

definition clipPos :: "Editor \<Rightarrow> EditorPosition \<Rightarrow> EditorPosition" where
  "clipPos e p =
     (if e = [] then \<lparr>line = 0, ch = 0\<rparr>
      else if line p < length e then \<lparr>line = line p, ch = min (ch p) (length (e ! line p))\<rparr>
      else \<lparr>line = length e - 1, ch = length (last e)\<rparr>)"

definition lineAt :: "Editor \<Rightarrow> nat \<Rightarrow> string" where
  "lineAt e n = (if n < length e then e ! n else [])"

definition joinLines :: "string list \<Rightarrow> string" where
  "joinLines ls = concat (map (\<lambda>l. l @ [CHR 0x0A]) ls)"

definition getRange :: "Editor \<Rightarrow> EditorPosition \<Rightarrow> EditorPosition \<Rightarrow> string" where
  "getRange e f t =
     (let a = clipPos e f; b = clipPos e t in
      if line a = line b then take (ch b - ch a) (drop (ch a) (lineAt e (line a)))
      else if line a < line b then
        drop (ch a) (lineAt e (line a)) @ [CHR 0x0A]
          @ joinLines (take (line b - line a - 1) (drop (line a + 1) e))
          @ take (ch b) (lineAt e (line b))
      else [])"

definition replaceRange :: "string \<Rightarrow> EditorPosition \<Rightarrow> EditorPosition \<Rightarrow> Editor \<Rightarrow> Editor" where
  "replaceRange txt f t e =
     (let a = clipPos e f; b0 = clipPos e t;
          b = (if line b0 < line a \<or> (line b0 = line a \<and> ch b0 < ch a) then a else b0);
          pre = take (ch a) (lineAt e (line a));
          post = drop (ch b) (lineAt e (line b));
          parts = split (CHR 0x0A) txt;
          new = (case parts of
                   [] \<Rightarrow> [pre @ post]
                 | [p] \<Rightarrow> [pre @ p @ post]
                 | p # ps \<Rightarrow> (pre @ p) # butlast ps @ [last ps @ post])
      in take (line a) e @ new @ drop (line b + 1) e)"

text \<open>
  \<open>editor.transaction({changes})\<close>: every change addresses the document as it was before
  the transaction. The batches of this program are in ascending document order and do
  not overlap, so applying them from the last to the first gives the same document.
\<close>

definition transaction :: "Editor \<Rightarrow> EditorChange list \<Rightarrow> Editor" where
  "transaction e cs = foldr (\<lambda>c d. replaceRange (change_text c) (change_from c) (change_to c) d) cs e"

section \<open>numbering.ts\<close>

definition markerRegex :: regex where
  "markerRegex = Seq ws04 (Plus (Lit CHR ''#''))"

definition numberGroup :: regex where
  "numberGroup = Alt (Seq (Plus (Sym isDigit)) (Lit CHR ''.'')) (Seq (Sym isUpper) (Lit CHR ''.''))"

definition lastToken :: regex where
  "lastToken = Alt (Plus (Sym isDigit)) (Sym isUpper)"

definition punct :: regex where
  "punct = Sym (\<lambda>c. c = CHR '':'' \<or> c = CHR ''.'' \<or> c = CHR ''-'')"

definition prefixRegex :: regex where
  "prefixRegex =
     Seq ws04 (Seq (Plus (Lit CHR ''#'')) (Seq (Opt (Lit CHR '' ''))
       (Seq (Star numberGroup) (Seq (Opt lastToken) (Seq (Opt punct) (Plus (Lit CHR '' '')))))))"

definition makeHeadingHashString :: "Editor \<Rightarrow> HeadingCache \<Rightarrow> string option" where
  "makeHeadingHashString editor h =
     (case getLine editor (start_line h) of
        None \<Rightarrow> None
      | Some headingLineString \<Rightarrow>
          if headingLineString = [] then None
          else (case matchAnchored markerRegex headingLineString of
                  [] \<Rightarrow> None
                | m # rest \<Rightarrow> if length (m # rest) \<noteq> 1 then None else Some (trimLeft m)))"

datatype NumberingToken = Num nat | Str string

definition tokenToString :: "NumberingToken \<Rightarrow> string" where
  "tokenToString t = (case t of Num n \<Rightarrow> natToString n | Str s \<Rightarrow> s)"

fun numberingParts :: "NumberingToken list \<Rightarrow> string" where
  "numberingParts [] = []"
| "numberingParts (t # ts) = CHR ''.'' # tokenToString t @ numberingParts ts"

definition makeNumberingString :: "NumberingToken list \<Rightarrow> string" where
  "makeNumberingString numberingStack =
     (case numberingStack of
        [] \<Rightarrow> []
      | t # ts \<Rightarrow> CHR '' '' # tokenToString t @ numberingParts ts)"

definition getHeadingPrefixRange :: "Editor \<Rightarrow> HeadingCache \<Rightarrow> EditorRange option" where
  "getHeadingPrefixRange editor h =
     (case getLine editor (start_line h) of
        None \<Rightarrow> None
      | Some headingLineString \<Rightarrow>
          if headingLineString = [] then None
          else (let matches = matchAnchored prefixRegex headingLineString in
                if matches \<noteq> [] \<and> length matches \<noteq> 1 then None
                else (let m = (case matches of [] \<Rightarrow> [] | x # _ \<Rightarrow> x) in
                      Some \<lparr>range_from = \<lparr>line = start_line h, ch = 0\<rparr>,
                            range_to = \<lparr>line = start_line h, ch = length m\<rparr>\<rparr>)))"

definition zerothNumberingTokenInStyle :: "string \<Rightarrow> NumberingToken" where
  "zerothNumberingTokenInStyle style =
     (if style = ''1'' then Num 0 else if style = ''A'' then Str ''Z'' else Num 0)"

definition firstNumberingTokenInStyle :: "string \<Rightarrow> NumberingToken" where
  "firstNumberingTokenInStyle style =
     (if style = ''1'' then Num 1 else if style = ''A'' then Str ''A'' else Num 1)"

text \<open>
  \<open>String.fromCharCode(t.charCodeAt(0) + 1)\<close>; on the empty string \<open>charCodeAt(0)\<close> is
  \<open>NaN\<close> and the result is the code unit 0.
\<close>

definition nextNumberingToken :: "NumberingToken \<Rightarrow> NumberingToken" where
  "nextNumberingToken t =
     (case t of
        Num n \<Rightarrow> Num (n + 1)
      | Str s \<Rightarrow>
          if s = ''Z'' then Str ''A''
          else (case s of
                  [] \<Rightarrow> Str [CHR 0x00]
                | c # _ \<Rightarrow> Str [char_of ((of_char c :: nat) + 1)]))"

definition cleanHeadingTextForToc :: "string \<Rightarrow> string" where
  "cleanHeadingTextForToc htext =
     (if CHR ''^'' \<in> set htext then
        (case split CHR ''^'' htext of
           x0 # x1 # _ \<Rightarrow> trim x0
         | _ \<Rightarrow> trim htext)
      else trim htext)"

record NumberHeadingsPluginSettings =
  auto :: bool
  firstLevel :: int
  maxLevel :: int
  contents :: string
  startAt :: string
  skipTopLevel :: bool
  styleLevel1 :: string
  styleLevelOther :: string
  separator :: string

definition startLevelOf :: "NumberHeadingsPluginSettings \<Rightarrow> int" where
  "startLevelOf settings = (if skipTopLevel settings then 2 else 1)"

definition createTocEntry :: "HeadingCache \<Rightarrow> NumberHeadingsPluginSettings \<Rightarrow> string" where
  "createTocEntry h settings =
     (let text = heading h;
          cleanText = cleanHeadingTextForToc text;
          bulletIndent = replicate (nat (level h - startLevelOf settings)) (CHR 0x09);
          entryLink = ''[[#'' @ text @ ''|'' @ cleanText @ '']]''
      in bulletIndent @ ''-'' @ '' '' @ entryLink)"

definition replaceRangeSafely ::
  "Editor \<Rightarrow> EditorChange list \<Rightarrow> EditorRange \<Rightarrow> string \<Rightarrow> EditorChange list" where
  "replaceRangeSafely editor cs rng txt =
     (let previousText = getRange editor (range_from rng) (range_to rng) in
      if previousText \<noteq> txt then
        cs @ [\<lparr>change_text = txt, change_from = range_from rng, change_to = range_to rng\<rparr>]
      else cs)"

subsection \<open>updateHeadingNumbering\<close>

record loop_state =
  numberingStack :: "NumberingToken list"
  previousLevel :: int
  changes :: "EditorChange list"

text \<open>\<open>numberingStack.pop()\<close> drops the last entry and leaves an empty stack empty.\<close>

definition popPushNext :: "NumberingToken list \<Rightarrow> NumberingToken list" where
  "popPushNext stack =
     (case rev stack of [] \<Rightarrow> [] | x # _ \<Rightarrow> butlast stack @ [nextNumberingToken x])"

definition excluded :: "NumberHeadingsPluginSettings \<Rightarrow> int \<Rightarrow> bool" where
  "excluded settings lv = ((skipTopLevel settings \<and> lv = 1) \<or> lv > maxLevel settings)"

definition adjustStack ::
  "NumberHeadingsPluginSettings \<Rightarrow> int \<Rightarrow> int \<Rightarrow> NumberingToken list \<Rightarrow> NumberingToken list" where
  "adjustStack settings lv prev stack =
     (if lv = prev then popPushNext stack
      else if lv < prev then popPushNext ((butlast ^^ nat (prev - lv)) stack)
      else stack @ replicate (nat (lv - prev)) (firstNumberingTokenInStyle (styleLevelOther settings)))"

text \<open>One pass of the loop body; \<open>None\<close> is the \<open>return\<close> that leaves the function.\<close>

definition headingStep ::
  "NumberHeadingsPluginSettings \<Rightarrow> Editor \<Rightarrow> loop_state \<Rightarrow> HeadingCache \<Rightarrow> loop_state option" where
  "headingStep settings editor st h =
     (let lv = level h in
      if excluded settings lv then
        (case getHeadingPrefixRange editor h of
           None \<Rightarrow> Some st
         | Some prefixRange \<Rightarrow>
             (case makeHeadingHashString editor h of
                None \<Rightarrow> Some st
              | Some headingHashString \<Rightarrow>
                  Some (st\<lparr>changes :=
                    replaceRangeSafely editor (changes st) prefixRange (headingHashString @ '' '')\<rparr>)))
      else
        (let stack = adjustStack settings lv (previousLevel st) (numberingStack st);
             st1 = st\<lparr>numberingStack := stack, previousLevel := lv\<rparr>
         in if lv > maxLevel settings then Some st1
            else
              (case getHeadingPrefixRange editor h of
                 None \<Rightarrow> None
               | Some prefixRange \<Rightarrow>
                   (case makeHeadingHashString editor h of
                      None \<Rightarrow> None
                    | Some headingHashString \<Rightarrow>
                        Some (st1\<lparr>changes :=
                          replaceRangeSafely editor (changes st1) prefixRange
                            (headingHashString @ makeNumberingString stack
                               @ separator settings @ '' '')\<rparr>)))))"

fun numberingLoop ::
  "NumberHeadingsPluginSettings \<Rightarrow> Editor \<Rightarrow> HeadingCache list \<Rightarrow> loop_state \<Rightarrow> loop_state option" where
  "numberingLoop settings editor [] st = Some st"
| "numberingLoop settings editor (h # hs) st =
     (case headingStep settings editor st h of
        None \<Rightarrow> None
      | Some st' \<Rightarrow> numberingLoop settings editor hs st')"

definition initialState :: "NumberHeadingsPluginSettings \<Rightarrow> loop_state" where
  "initialState settings =
     \<lparr>numberingStack = [zerothNumberingTokenInStyle (styleLevel1 settings)],
      previousLevel = (if skipTopLevel settings then 2 else 1),
      changes = []\<rparr>"

record ViewInfo =
  vi_headings :: "HeadingCache list option"
  vi_editor :: Editor

text \<open>
  The three operations return the batch they hand to \<open>editor.transaction\<close>; \<open>None\<close> is a
  call that ends without a transaction.
\<close>

definition updateHeadingNumbering ::
  "ViewInfo option \<Rightarrow> NumberHeadingsPluginSettings \<Rightarrow> EditorChange list option" where
  "updateHeadingNumbering viewInfo settings =
     (case viewInfo of
        None \<Rightarrow> None
      | Some vi \<Rightarrow>
          (case numberingLoop settings (vi_editor vi)
                  (case vi_headings vi of None \<Rightarrow> [] | Some hs \<Rightarrow> hs) (initialState settings) of
             None \<Rightarrow> None
           | Some st \<Rightarrow> if length (changes st) > 0 then Some (changes st) else None))"

subsection \<open>removeHeadingNumbering\<close>

definition removeStep :: "Editor \<Rightarrow> EditorChange list \<Rightarrow> HeadingCache \<Rightarrow> EditorChange list option" where
  "removeStep editor cs h =
     (case getHeadingPrefixRange editor h of
        None \<Rightarrow> None
      | Some prefixRange \<Rightarrow>
          (case makeHeadingHashString editor h of
             None \<Rightarrow> None
           | Some headingHashString \<Rightarrow>
               Some (replaceRangeSafely editor cs prefixRange (headingHashString @ '' ''))))"

fun removeLoop :: "Editor \<Rightarrow> HeadingCache list \<Rightarrow> EditorChange list \<Rightarrow> EditorChange list option" where
  "removeLoop editor [] cs = Some cs"
| "removeLoop editor (h # hs) cs =
     (case removeStep editor cs h of
        None \<Rightarrow> None
      | Some cs' \<Rightarrow> removeLoop editor hs cs')"

definition removeHeadingNumbering :: "ViewInfo option \<Rightarrow> EditorChange list option" where
  "removeHeadingNumbering viewInfo =
     (case viewInfo of
        None \<Rightarrow> None
      | Some vi \<Rightarrow>
          (case removeLoop (vi_editor vi) (case vi_headings vi of None \<Rightarrow> [] | Some hs \<Rightarrow> hs) [] of
             None \<Rightarrow> None
           | Some cs \<Rightarrow> if length cs > 0 then Some cs else None))"

text \<open>The document after an operation.\<close>

definition afterOperation :: "Editor \<Rightarrow> EditorChange list option \<Rightarrow> Editor" where
  "afterOperation e r = (case r of None \<Rightarrow> e | Some cs \<Rightarrow> transaction e cs)"

subsection \<open>updateTableOfContents\<close>

definition tocStep ::
  "NumberHeadingsPluginSettings \<Rightarrow> HeadingCache option \<times> string \<Rightarrow> HeadingCache
     \<Rightarrow> HeadingCache option \<times> string" where
  "tocStep settings acc h =
     (let tocHeading = (if endsWith (heading h) (contents settings) then Some h else fst acc) in
      if excluded settings (level h) then (tocHeading, snd acc)
      else (tocHeading, snd acc @ createTocEntry h settings @ [CHR 0x0A]))"

text \<open>
  The scan \<open>for (endingLine = startingLine; ; endingLine++)\<close>; the result is the value of
  \<open>endingLine\<close> after the loop.
\<close>

function findEndingLine :: "Editor \<Rightarrow> nat \<Rightarrow> nat \<Rightarrow> bool \<Rightarrow> nat" where
  "findEndingLine e startingLine endingLine foundList =
     (case getLine e endingLine of
        None \<Rightarrow> startingLine
      | Some l \<Rightarrow>
          (let trimmedLineText = trimLeft l in
           if foundList then
             (if \<not> startsWith trimmedLineText ''-'' then endingLine
              else if startsWith trimmedLineText ''#'' then endingLine
              else findEndingLine e startingLine (endingLine + 1) foundList)
           else
             (if startsWith trimmedLineText ''-'' then
                findEndingLine e startingLine (endingLine + 1) True
              else if startsWith trimmedLineText ''#'' then startingLine
              else findEndingLine e startingLine (endingLine + 1) foundList)))"
  by pat_completeness auto
termination
  by (relation "measure (\<lambda>(e, s, n, f). length e - n)")
     (auto simp: getLine_def split: if_splits)

declare findEndingLine.simps [simp del]

text \<open>
  \<open>doesContentsHaveValue\<close> is declared in settingsTypes, outside these sources, and is a
  parameter here.
\<close>

definition updateTableOfContents ::
  "(string \<Rightarrow> bool) \<Rightarrow> ViewInfo option \<Rightarrow> NumberHeadingsPluginSettings \<Rightarrow> EditorChange list option" where
  "updateTableOfContents doesContentsHaveValue viewInfo settings =
     (case viewInfo of
        None \<Rightarrow> None
      | Some vi \<Rightarrow>
          if \<not> doesContentsHaveValue (contents settings) then None
          else
            (let hs = (case vi_headings vi of None \<Rightarrow> [] | Some hs \<Rightarrow> hs);
                 acc = foldl (tocStep settings) (None, [CHR 0x0A]) hs;
                 cs = (case fst acc of
                         None \<Rightarrow> []
                       | Some tocHeading \<Rightarrow>
                           (let startingLine = start_line tocHeading + 1;
                                endingLine = findEndingLine (vi_editor vi) startingLine startingLine False;
                                rng = \<lparr>range_from = \<lparr>line = startingLine, ch = 0\<rparr>,
                                         range_to = \<lparr>line = endingLine, ch = 0\<rparr>\<rparr>;
                                tocBuilder = (if snd acc = [CHR 0x0A] then [] else snd acc)
                            in replaceRangeSafely (vi_editor vi) [] rng tocBuilder))
             in if length cs > 0 then Some cs else None))"

section \<open>frontMatter.ts\<close>

text \<open>
  \<open>parseInt(s)\<close> with no radix: white space, a sign, then hexadecimal digits after
  \<open>0x\<close> or \<open>0X\<close> and decimal digits otherwise; \<open>None\<close> is \<open>NaN\<close>.
\<close>

definition hexDigitValue :: "char \<Rightarrow> nat option" where
  "hexDigitValue c =
     (let n = (of_char c :: nat) in
      if 48 \<le> n \<and> n \<le> 57 then Some (n - 48)
      else if 65 \<le> n \<and> n \<le> 70 then Some (n - 55)
      else if 97 \<le> n \<and> n \<le> 102 then Some (n - 87)
      else None)"

definition isHexDigit :: "char \<Rightarrow> bool" where
  "isHexDigit c = (hexDigitValue c \<noteq> None)"

definition digitsValue :: "nat \<Rightarrow> string \<Rightarrow> nat" where
  "digitsValue radix ds =
     foldl (\<lambda>acc c. acc * radix + (case hexDigitValue c of None \<Rightarrow> 0 | Some d \<Rightarrow> d)) 0 ds"

definition parseInt :: "string \<Rightarrow> int option" where
  "parseInt s =
     (let t = dropWhile isWhiteSpace s;
          neg = startsWith t ''-'';
          u = (if startsWith t ''-'' \<or> startsWith t ''+'' then drop 1 t else t);
          hex = (startsWith u ''0x'' \<or> startsWith u ''0X'');
          ds = (if hex then takeWhile isHexDigit (drop 2 u) else takeWhile isDigit u);
          v = int (digitsValue (if hex then 16 else 10) ds)
      in if ds = [] then None else Some (if neg then - v else v))"

text \<open>
  Modelled from the spec: \<open>updateSettingsFromFrontMatterFormatPart\<close> of textProcessing,
  which is outside these sources. The format token is \<open>(_\.)?(1|A)\.(1|A)[SEP]?\<close>, with
  SEP one of \<open>.\<close>, \<open>:\<close> and \<open>-\<close>; the token sets the skip-top-level flag, the style of
  level 1, the style of the other levels and the separator. Any other token leaves the
  settings as they are.
\<close>

definition isStyleChar :: "char \<Rightarrow> bool" where
  "isStyleChar c = (c = CHR ''1'' \<or> c = CHR ''A'')"

definition isSeparatorChar :: "char \<Rightarrow> bool" where
  "isSeparatorChar c = (c = CHR ''.'' \<or> c = CHR '':'' \<or> c = CHR ''-'')"

definition updateSettingsFromFrontMatterFormatPart ::
  "string \<Rightarrow> NumberHeadingsPluginSettings \<Rightarrow> NumberHeadingsPluginSettings" where
  "updateSettingsFromFrontMatterFormatPart part settings =
     (let skip = startsWith part ''_.'';
          body = (if skip then drop 2 part else part)
      in (case body of
            [a, d, b] \<Rightarrow>
              if isStyleChar a \<and> d = CHR ''.'' \<and> isStyleChar b then
                settings\<lparr>skipTopLevel := skip, styleLevel1 := [a], styleLevelOther := [b],
                         separator := []\<rparr>
              else settings
          | [a, d, b, sep] \<Rightarrow>
              if isStyleChar a \<and> d = CHR ''.'' \<and> isStyleChar b \<and> isSeparatorChar sep then
                settings\<lparr>skipTopLevel := skip, styleLevel1 := [a], styleLevelOther := [b],
                         separator := [sep]\<rparr>
              else settings
          | _ \<Rightarrow> settings))"

text \<open>
  The declarations of settingsTypes that the parser uses are outside these sources and
  are parameters: the default settings and the three validators. A validator of levels
  is asked about integers; \<open>NaN\<close> lies in no range and is refused.
\<close>

record settingsTypes =
  DEFAULT_SETTINGS :: NumberHeadingsPluginSettings
  isValidFirstOrMaxLevel :: "int \<Rightarrow> bool"
  isValidNumberingValueString :: "string \<Rightarrow> bool"
  isValidContents :: "string \<Rightarrow> bool"

definition parsePart ::
  "settingsTypes \<Rightarrow> NumberHeadingsPluginSettings \<Rightarrow> string \<Rightarrow> NumberHeadingsPluginSettings" where
  "parsePart ext settings part =
     (let trimmedPart = trim part in
      if length trimmedPart = 0 then settings
      else if trimmedPart = ''auto'' then settings\<lparr>auto := True\<rparr>
      else if startsWith trimmedPart ''first-level'' then
        (case parseInt (substring trimmedPart (length ''first-level'' + 1)) of
           None \<Rightarrow> settings
         | Some n \<Rightarrow> if isValidFirstOrMaxLevel ext n then settings\<lparr>firstLevel := n\<rparr> else settings)
      else if startsWith trimmedPart ''max'' then
        (case parseInt (substring trimmedPart (length ''max'' + 1)) of
           None \<Rightarrow> settings
         | Some n \<Rightarrow> if isValidFirstOrMaxLevel ext n then settings\<lparr>maxLevel := n\<rparr> else settings)
      else if startsWith trimmedPart ''start-at'' then
        (let v = substring trimmedPart (length ''start-at'' + 1) in
         if isValidNumberingValueString ext v then settings\<lparr>startAt := v\<rparr> else settings)
      else if startsWith trimmedPart ''contents'' then
        (if length trimmedPart \<le> length ''contents'' + 1 then settings
         else
           (let tocHeading = substring trimmedPart (length ''contents'' + 1) in
            if isValidContents ext tocHeading then settings\<lparr>contents := tocHeading\<rparr>
            else settings))
      else updateSettingsFromFrontMatterFormatPart trimmedPart settings)"

text \<open>
  The argument is the value of the key \<open>number headings\<close> as a string, \<open>None\<close> when the
  key is absent; an empty value is falsy.
\<close>

definition parseCompactFrontMatterSettings ::
  "settingsTypes \<Rightarrow> string option \<Rightarrow> NumberHeadingsPluginSettings option" where
  "parseCompactFrontMatterSettings ext entry =
     (case entry of
        None \<Rightarrow> None
      | Some entryString \<Rightarrow>
          if entryString = [] then None
          else Some (foldl (parsePart ext) (DEFAULT_SETTINGS ext) (split CHR '','' entryString)))"

definition settingsToCompactFrontMatterValue :: "NumberHeadingsPluginSettings \<Rightarrow> string" where
  "settingsToCompactFrontMatterValue settings =
     (let autoPart = (if auto settings then ''auto, '' else []);
          firstLevelPart = ''first-level '' @ intToString (firstLevel settings) @ '', '';
          maxPart = ''max '' @ intToString (maxLevel settings) @ '', '';
          contentsPart = (if length (contents settings) > 0
                          then ''contents '' @ contents settings @ '', '' else []);
          skipTopLevelString = (if skipTopLevel settings then ''_.'' else []);
          stylePart = skipTopLevelString @ styleLevel1 settings @ ''.''
                        @ styleLevelOther settings @ separator settings;
          startAtPart = (if startAt settings \<noteq> [] then ''start-at '' @ startAt settings @ '', ''
                         else [])
      in autoPart @ firstLevelPart @ maxPart @ contentsPart @ startAtPart @ stylePart)"

text \<open>The letters of the alphabet by position: 0 is \<open>A\<close>, 25 is \<open>Z\<close>.\<close>

definition upperLetter :: "nat \<Rightarrow> char" where
  "upperLetter k = char_of (65 + k)"

subsection \<open>Example documents\<close>

definition defaultSettings :: NumberHeadingsPluginSettings where
  "defaultSettings =
     \<lparr>auto = False, firstLevel = 1, maxLevel = 6, contents = [], startAt = [],
      skipTopLevel = False, styleLevel1 = ''1'', styleLevelOther = ''1'', separator = ''.''\<rparr>"

definition exampleDoc :: Editor where
  "exampleDoc = [''# Intro'', ''## Background'', ''## Related Work'', ''# Methods'', ''## Setup'']"

definition exampleHeadings :: "HeadingCache list" where
  "exampleHeadings =
     [\<lparr>heading = ''Intro'', level = 1, start_line = 0\<rparr>,
      \<lparr>heading = ''Background'', level = 2, start_line = 1\<rparr>,
      \<lparr>heading = ''Related Work'', level = 2, start_line = 2\<rparr>,
      \<lparr>heading = ''Methods'', level = 1, start_line = 3\<rparr>,
      \<lparr>heading = ''Setup'', level = 2, start_line = 4\<rparr>]"

definition exampleChanges :: "EditorChange list" where
  "exampleChanges =
     [\<lparr>change_text = ''# 1. '', change_from = \<lparr>line = 0, ch = 0\<rparr>, change_to = \<lparr>line = 0, ch = 2\<rparr>\<rparr>,
      \<lparr>change_text = ''## 1.1. '', change_from = \<lparr>line = 1, ch = 0\<rparr>, change_to = \<lparr>line = 1, ch = 3\<rparr>\<rparr>,
      \<lparr>change_text = ''## 1.2. '', change_from = \<lparr>line = 2, ch = 0\<rparr>, change_to = \<lparr>line = 2, ch = 3\<rparr>\<rparr>,
      \<lparr>change_text = ''# 2. '', change_from = \<lparr>line = 3, ch = 0\<rparr>, change_to = \<lparr>line = 3, ch = 2\<rparr>\<rparr>,
      \<lparr>change_text = ''## 2.1. '', change_from = \<lparr>line = 4, ch = 0\<rparr>, change_to = \<lparr>line = 4, ch = 3\<rparr>\<rparr>]"

text \<open>
  A document with a heading underlined by \<open>=\<close> (a setext heading): its line has no
  marker run.
\<close>

definition setextDoc :: Editor where
  "setextDoc = [''# Intro'', ''Title'', ''====='']"

definition setextHeadings :: "HeadingCache list" where
  "setextHeadings =
     [\<lparr>heading = ''Intro'', level = 1, start_line = 0\<rparr>,
      \<lparr>heading = ''Title'', level = 1, start_line = 1\<rparr>]"

definition setextNumberedDoc :: Editor where
  "setextNumberedDoc = [''# 1. Intro'', ''Title'', ''====='']"

text \<open>The top level is skipped and is a setext heading.\<close>

definition skipSettings :: NumberHeadingsPluginSettings where
  "skipSettings = defaultSettings\<lparr>skipTopLevel := True\<rparr>"

definition skipDoc :: Editor where
  "skipDoc = [''Title'', ''====='', ''## Intro'']"

definition skipHeadings :: "HeadingCache list" where
  "skipHeadings =
     [\<lparr>heading = ''Title'', level = 1, start_line = 0\<rparr>,
      \<lparr>heading = ''Intro'', level = 2, start_line = 2\<rparr>]"

text \<open>Two levels with numbering limited to the first.\<close>

definition shallowSettings :: NumberHeadingsPluginSettings where
  "shallowSettings = defaultSettings\<lparr>maxLevel := 1\<rparr>"

definition shallowDoc :: Editor where
  "shallowDoc = [''# Intro'', ''## Background'']"

definition shallowHeadings :: "HeadingCache list" where
  "shallowHeadings =
     [\<lparr>heading = ''Intro'', level = 1, start_line = 0\<rparr>,
      \<lparr>heading = ''Background'', level = 2, start_line = 1\<rparr>]"

text \<open>A heading whose line is the marker alone.\<close>

definition bareDoc :: Editor where
  "bareDoc = [''#'']"

definition oneHeading :: "HeadingCache list" where
  "oneHeading = [\<lparr>heading = [], level = 1, start_line = 0\<rparr>]"

text \<open>The settings of the directive \<open>auto, first-level 2, max 4, contents Overview, 1.A.\<close>\<close>

definition overviewSettings :: NumberHeadingsPluginSettings where
  "overviewSettings =
     \<lparr>auto = True, firstLevel = 2, maxLevel = 4, contents = ''Overview'', startAt = [],
      skipTopLevel = False, styleLevel1 = ''1'', styleLevelOther = ''A'', separator = ''.''\<rparr>"

definition exampleSettingsTypes :: settingsTypes where
  "exampleSettingsTypes =
     \<lparr>DEFAULT_SETTINGS = defaultSettings\<lparr>maxLevel := 6, separator := []\<rparr>,
      isValidFirstOrMaxLevel = (\<lambda>n. 1 \<le> n \<and> n \<le> 6),
      isValidNumberingValueString = (\<lambda>v. v \<noteq> []),
      isValidContents = (\<lambda>c. True)\<rparr>"

definition skipNumberedDoc :: Editor where
  "skipNumberedDoc = [''Title'', ''====='', ''## 1. Intro'']"

text \<open>A heading below the numbered levels, written with two spaces after the marker.\<close>

definition spacedSettings :: NumberHeadingsPluginSettings where
  "spacedSettings = defaultSettings\<lparr>maxLevel := 2\<rparr>"

definition spacedDoc :: Editor where
  "spacedDoc = [''###  2020 plans'']"

definition spacedHeadings :: "HeadingCache list" where
  "spacedHeadings = [\<lparr>heading = ''2020 plans'', level = 3, start_line = 0\<rparr>]"

text \<open>Two levels with the top level skipped.\<close>

definition nestedDoc :: Editor where
  "nestedDoc = [''# Title'', ''## Intro'']"

definition nestedHeadings :: "HeadingCache list" where
  "nestedHeadings =
     [\<lparr>heading = ''Title'', level = 1, start_line = 0\<rparr>,
      \<lparr>heading = ''Intro'', level = 2, start_line = 1\<rparr>]"

text \<open>An excluded heading that carries a number.\<close>

definition deepDoc :: Editor where
  "deepDoc = [''### 1.2.3. Details'']"

definition deepHeadings :: "HeadingCache list" where
  "deepHeadings = [\<lparr>heading = ''1.2.3. Details'', level = 3, start_line = 0\<rparr>]"

text \<open>An excluded heading that carries a number, followed by a setext heading.\<close>

definition deepSetextDoc :: Editor where
  "deepSetextDoc = [''### 1.2.3. Details'', ''Title'', ''====='']"

definition deepSetextHeadings :: "HeadingCache list" where
  "deepSetextHeadings =
     [\<lparr>heading = ''1.2.3. Details'', level = 3, start_line = 0\<rparr>,
      \<lparr>heading = ''Title'', level = 1, start_line = 1\<rparr>]"

subsection \<open>Invariants of the numbering loop\<close>

text \<open>The stack holds one token for each level from the start level to the previous level.\<close>

definition stackInvariant :: "NumberHeadingsPluginSettings \<Rightarrow> loop_state \<Rightarrow> bool" where
  "stackInvariant settings st =
     (startLevelOf settings \<le> previousLevel st
      \<and> int (length (numberingStack st)) = previousLevel st - startLevelOf settings + 1)"

subsection \<open>The match a backtracking matcher reports\<close>

text \<open>The remainder after the first match in backtracking order, if the pattern matches.\<close>

definition firstMatch :: "regex \<Rightarrow> string \<Rightarrow> string option" where
  "firstMatch r s = (case ms r s of [] \<Rightarrow> None | t # _ \<Rightarrow> Some t)"

text \<open>
  The parts of the full-prefix pattern after the marker run and the optional space: the
  number groups, and then the last token, the punctuation and the spaces.
\<close>

definition tokenTail :: regex where
  "tokenTail = Seq (Opt lastToken) (Seq (Opt punct) (Plus (Lit CHR '' '')))"

definition bodyRegex :: regex where
  "bodyRegex = Seq (Star numberGroup) tokenTail"

text \<open>What one number group consumes: digits and a dot, or an upper-case letter and a dot.\<close>

definition groupRest :: "string \<Rightarrow> string option" where
  "groupRest s =
     (case s of
        [] \<Rightarrow> None
      | c # cs \<Rightarrow>
          if isDigit c then
            (case dropWhile isDigit cs of
               [] \<Rightarrow> None
             | d # t \<Rightarrow> if d = CHR ''.'' then Some t else None)
          else if isUpper c then
            (case cs of
               [] \<Rightarrow> None
             | d # t \<Rightarrow> if d = CHR ''.'' then Some t else None)
          else None)"

subsection \<open>The scanner on one line\<close>

text \<open>The length of the full-prefix match on a line, 0 without a match.\<close>

definition prefixLength :: "string \<Rightarrow> nat" where
  "prefixLength l = (case matchAnchored prefixRegex l of [] \<Rightarrow> 0 | m # _ \<Rightarrow> length m)"

text \<open>The marker run of a line, without the white space before it.\<close>

definition markerOf :: "string \<Rightarrow> string option" where
  "markerOf l = (case matchAnchored markerRegex l of [] \<Rightarrow> None | m # _ \<Rightarrow> Some (trimLeft m))"

text \<open>The line of a heading; a missing line counts as empty, as in the scanner.\<close>

definition headingLine :: "Editor \<Rightarrow> HeadingCache \<Rightarrow> string" where
  "headingLine e h = (case getLine e (start_line h) of None \<Rightarrow> [] | Some l \<Rightarrow> l)"

definition isHash :: "char \<Rightarrow> bool" where
  "isHash c = (c = CHR ''#'')"

definition isSpace :: "char \<Rightarrow> bool" where
  "isSpace c = (c = CHR '' '')"

text \<open>The tokens the three token operations produce: numbers and single upper-case letters.\<close>

definition goodToken :: "NumberingToken \<Rightarrow> bool" where
  "goodToken t =
     (case t of
        Num n \<Rightarrow> True
      | Str s \<Rightarrow> (case s of [] \<Rightarrow> False | c # cs \<Rightarrow> cs = [] \<and> isUpper c))"

text \<open>The separators of the full-prefix pattern: none, or one of \<open>:\<close>, \<open>.\<close> and \<open>-\<close>.\<close>

definition validSeparator :: "string \<Rightarrow> bool" where
  "validSeparator sep = (sep = [] \<or> sep = '':'' \<or> sep = ''.'' \<or> sep = ''-'')"

text \<open>The edits a step or a run adds to those computed before it.\<close>

definition newChanges :: "EditorChange list \<Rightarrow> EditorChange list \<Rightarrow> EditorChange list" where
  "newChanges before after = drop (length before) after"

definition prefixRange :: "nat \<Rightarrow> nat \<Rightarrow> EditorRange" where
  "prefixRange l n = \<lparr>range_from = \<lparr>line = l, ch = 0\<rparr>, range_to = \<lparr>line = l, ch = n\<rparr>\<rparr>"

subsection \<open>Lines after the contents heading\<close>

definition isBulletLine :: "string \<Rightarrow> bool" where
  "isBulletLine l = startsWith (trimLeft l) ''-''"

definition isHeadingLine :: "string \<Rightarrow> bool" where
  "isHeadingLine l = startsWith (trimLeft l) ''#''"

definition isOtherLine :: "string \<Rightarrow> bool" where
  "isOtherLine l = (if isBulletLine l then False else if isHeadingLine l then False else True)"

text \<open>A document whose contents list runs to the last line.\<close>

definition contentsSettings :: NumberHeadingsPluginSettings where
  "contentsSettings = defaultSettings\<lparr>contents := ''Contents''\<rparr>"

definition contentsDoc :: Editor where
  "contentsDoc = [''# Alpha'', ''# Contents'', [], ''- old entry'']"

definition contentsHeadings :: "HeadingCache list" where
  "contentsHeadings =
     [\<lparr>heading = ''Alpha'', level = 1, start_line = 0\<rparr>,
      \<lparr>heading = ''Contents'', level = 1, start_line = 1\<rparr>]"

definition contentsList :: string where
  "contentsList = CHR 0x0A # ''- [[#Alpha|Alpha]]'' @ CHR 0x0A # ''- [[#Contents|Contents]]'' @ [CHR 0x0A]"

subsection \<open>What a step computes, apart from the edits\<close>

text \<open>The stack and the previous level after the step of a heading.\<close>

definition nextState ::
  "NumberHeadingsPluginSettings \<Rightarrow> loop_state \<Rightarrow> HeadingCache \<Rightarrow> loop_state" where
  "nextState settings st h =
     (if excluded settings (level h) then st
      else st\<lparr>numberingStack :=
                 adjustStack settings (level h) (previousLevel st) (numberingStack st),
              previousLevel := level h\<rparr>)"

text \<open>The text the step writes over the prefix of a line with the marker run \<open>hash\<close>.\<close>

definition replacementText ::
  "NumberHeadingsPluginSettings \<Rightarrow> loop_state \<Rightarrow> HeadingCache \<Rightarrow> string \<Rightarrow> string" where
  "replacementText settings st h hash =
     (if excluded settings (level h) then hash @ '' ''
      else hash @ makeNumberingString (numberingStack (nextState settings st h))
             @ separator settings @ '' '')"

text \<open>
  A heading line is settled when the text after its scanned prefix cannot be taken for
  part of a prefix once the computed prefix stands before it: for a numbered heading it
  does not start with a space, for an excluded heading the numbering part of the pattern
  does not match it. A line without a marker run is never edited and counts as settled.
\<close>

definition settledLine :: "NumberHeadingsPluginSettings \<Rightarrow> int \<Rightarrow> string \<Rightarrow> bool" where
  "settledLine settings lv l =
     (case markerOf l of
        None \<Rightarrow> True
      | Some hash \<Rightarrow>
          (let rest = drop (prefixLength l) l in
           if excluded settings lv then ms bodyRegex rest = []
           else (case rest of [] \<Rightarrow> True | c # cs \<Rightarrow> c \<noteq> CHR '' '')))"

definition loopInvariant :: "NumberHeadingsPluginSettings \<Rightarrow> loop_state \<Rightarrow> bool" where
  "loopInvariant settings st =
     (stackInvariant settings st \<and> list_all goodToken (numberingStack st))"

text \<open>Two documents agree on the lines of the headings that lie inside the document.\<close>

definition agreeOnHeadings :: "HeadingCache list \<Rightarrow> nat \<Rightarrow> Editor \<Rightarrow> Editor \<Rightarrow> bool" where
  "agreeOnHeadings hs n a b =
     list_all (\<lambda>h. if start_line h < n then a ! start_line h = b ! start_line h else True) hs"

definition settledHeadings ::
  "NumberHeadingsPluginSettings \<Rightarrow> Editor \<Rightarrow> HeadingCache list \<Rightarrow> bool" where
  "settledHeadings settings e hs =
     list_all (\<lambda>h. settledLine settings (level h) (headingLine e h)) hs"

definition positiveLevels :: "HeadingCache list \<Rightarrow> bool" where
  "positiveLevels hs = list_all (\<lambda>h. 1 \<le> level h) hs"

text \<open>
  A heading line that the loop goes through without leaving the function and that the
  pattern reads as written. For a numbered heading the full-prefix pattern matches the
  line. For an excluded heading either the line has no marker run, and the heading is
  passed over, or the pattern matches the line and the text after the match is not
  itself read as a numbering by the pattern.
\<close>

definition matchedLine :: "NumberHeadingsPluginSettings \<Rightarrow> int \<Rightarrow> string \<Rightarrow> bool" where
  "matchedLine settings lv l =
     (if excluded settings lv
      then markerOf l = None
           \<or> (matchAnchored prefixRegex l \<noteq> [] \<and> ms bodyRegex (drop (prefixLength l) l) = [])
      else matchAnchored prefixRegex l \<noteq> [])"

definition matchedHeadings ::
  "NumberHeadingsPluginSettings \<Rightarrow> Editor \<Rightarrow> HeadingCache list \<Rightarrow> bool" where
  "matchedHeadings settings e hs =
     list_all (\<lambda>h. matchedLine settings (level h) (headingLine e h)) hs"

section \<open>Properties\<close>

subsection \<open>Numbering tokens\<close>

lemma next_Num: "nextNumberingToken (Num n) = Num (n + 1)"
  by (simp add: nextNumberingToken_def)

lemma of_char_upperLetter: "k < 26 \<Longrightarrow> (of_char (upperLetter k) :: nat) = 65 + k"
  by (simp add: upperLetter_def)

lemma upperLetter_A: "upperLetter 0 = CHR ''A''"
  by (simp add: upperLetter_def char_of_eq_iff)

lemma upperLetter_Z: "upperLetter 25 = CHR ''Z''"
  by (simp add: upperLetter_def char_of_eq_iff)

lemma upperLetter_inj:
  assumes "j < 26" "k < 26" "upperLetter j = upperLetter k"
  shows "j = k"
proof -
  have "(of_char (upperLetter j) :: nat) = of_char (upperLetter k)"
    by (simp only: assms(3))
  then have "65 + j = 65 + k"
    by (simp only: of_char_upperLetter[OF assms(1)] of_char_upperLetter[OF assms(2)])
  then show ?thesis by simp
qed

lemma next_letter: "nextNumberingToken (Str [upperLetter (k mod 26)]) = Str [upperLetter (Suc k mod 26)]"
proof (cases "k mod 26 = 25")
  case True
  then show ?thesis by (simp add: nextNumberingToken_def upperLetter_Z upperLetter_A mod_Suc)
next
  case False
  have "k mod 26 < 26" by simp
  with False have lt: "k mod 26 < 25" by linarith
  have ne: "upperLetter (k mod 26) \<noteq> CHR ''Z''"
  proof
    assume "upperLetter (k mod 26) = CHR ''Z''"
    then have "upperLetter (k mod 26) = upperLetter 25" by (simp only: upperLetter_Z)
    then have "k mod 26 = 25" using lt by (intro upperLetter_inj) simp_all
    then show False using lt by simp
  qed
  have oc: "(of_char (upperLetter (k mod 26)) :: nat) = 65 + k mod 26"
    using lt by (simp add: of_char_upperLetter)
  have "nextNumberingToken (Str [upperLetter (k mod 26)]) = Str [char_of (65 + k mod 26 + 1)]"
    using ne by (simp add: nextNumberingToken_def oc)
  also have "\<dots> = Str [upperLetter (Suc (k mod 26))]" by (simp add: upperLetter_def)
  also have "Suc (k mod 26) = Suc k mod 26" using False by (simp add: mod_Suc)
  finally show ?thesis .
qed

lemma next_num_pow: "(nextNumberingToken ^^ m) (Num n) = Num (n + m)"
  by (induction m) (simp_all add: next_Num)

lemma next_letter_pow:
  "(nextNumberingToken ^^ m) (Str [upperLetter (k mod 26)]) = Str [upperLetter ((k + m) mod 26)]"
proof (induction m)
  case 0
  show ?case by simp
next
  case (Suc m)
  show ?case using next_letter[of "k + m"] by (simp add: Suc)
qed

lemma sibling_run:
  "(adjustStack settings lv lv ^^ m) (stk @ [t]) = stk @ [(nextNumberingToken ^^ m) t]"
  by (induction m) (simp_all add: adjustStack_def popPushNext_def)

text \<open>
  Claim C9. The zeroth token of style \<open>1\<close> is 0 and that of style \<open>A\<close> is \<open>Z\<close>; the
  next token of an integer \<open>n\<close> is \<open>n + 1\<close>, and the next token of a letter is the next
  letter of the alphabet, with \<open>Z\<close> followed by \<open>A\<close>. A run of \<open>m + 1\<close> sibling headings
  at one level, started from the zeroth token, therefore ends on the number \<open>m + 1\<close> under
  style \<open>1\<close> and on the letter at position \<open>m mod 26\<close> under style \<open>A\<close>.
\<close>

theorem token_operations:
  "zerothNumberingTokenInStyle ''1'' = Num 0
   \<and> zerothNumberingTokenInStyle ''A'' = Str ''Z''
   \<and> nextNumberingToken (Num n) = Num (n + 1)
   \<and> nextNumberingToken (Str [upperLetter (k mod 26)]) = Str [upperLetter (Suc k mod 26)]
   \<and> upperLetter 0 = CHR ''A'' \<and> upperLetter 25 = CHR ''Z''
   \<and> (adjustStack settings lv lv ^^ Suc m) (stk @ [zerothNumberingTokenInStyle ''1''])
       = stk @ [Num (Suc m)]
   \<and> (adjustStack settings lv lv ^^ Suc m) (stk @ [zerothNumberingTokenInStyle ''A''])
       = stk @ [Str [upperLetter (m mod 26)]]"
proof -
  have z1: "zerothNumberingTokenInStyle ''1'' = Num 0"
    by (simp add: zerothNumberingTokenInStyle_def)
  have zA: "zerothNumberingTokenInStyle ''A'' = Str ''Z''"
    by (simp add: zerothNumberingTokenInStyle_def)
  have m25: "(25::nat) mod 26 = 25"
    by simp
  have z: "Str ''Z'' = Str [upperLetter (25 mod 26)]"
    by (simp only: m25 upperLetter_Z)
  have "(nextNumberingToken ^^ Suc m) (Str ''Z'') = Str [upperLetter ((25 + Suc m) mod 26)]"
    unfolding z by (rule next_letter_pow)
  moreover have "(25 + Suc m) mod 26 = m mod 26"
  proof -
    have "25 + Suc m = m + 26" by simp
    then show ?thesis by (simp only: mod_add_self2)
  qed
  ultimately have a: "(nextNumberingToken ^^ Suc m) (Str ''Z'') = Str [upperLetter (m mod 26)]"
    by (simp only:)
  have n: "(nextNumberingToken ^^ Suc m) (Num 0) = Num (Suc m)"
    using next_num_pow[of "Suc m" 0] by simp
  have r1: "(adjustStack settings lv lv ^^ Suc m) (stk @ [zerothNumberingTokenInStyle ''1''])
       = stk @ [Num (Suc m)]"
    by (simp only: sibling_run z1 n)
  have rA: "(adjustStack settings lv lv ^^ Suc m) (stk @ [zerothNumberingTokenInStyle ''A''])
       = stk @ [Str [upperLetter (m mod 26)]]"
    by (simp only: sibling_run zA a)
  show ?thesis
    by (intro conjI z1 zA next_Num next_letter upperLetter_A upperLetter_Z r1 rA)
qed

subsection \<open>Edits within one line\<close>

lemma split_no_separator: "c \<notin> set s \<Longrightarrow> split c s = [s]"
  by (induction s) auto

lemma clipPos_inside:
  "l < length e \<Longrightarrow> n \<le> length (e ! l) \<Longrightarrow> clipPos e \<lparr>line = l, ch = n\<rparr> = \<lparr>line = l, ch = n\<rparr>"
  by (auto simp: clipPos_def)

lemma getRange_line:
  assumes "l < length e" and "n \<le> length (e ! l)"
  shows "getRange e \<lparr>line = l, ch = 0\<rparr> \<lparr>line = l, ch = n\<rparr> = take n (e ! l)"
  using assms by (simp add: getRange_def clipPos_inside lineAt_def)

lemma replaceRange_line:
  assumes "l < length e" and "n \<le> length (e ! l)" and "CHR 0x0A \<notin> set txt"
  shows "replaceRange txt \<lparr>line = l, ch = 0\<rparr> \<lparr>line = l, ch = n\<rparr> e = e[l := txt @ drop n (e ! l)]"
proof -
  have "replaceRange txt \<lparr>line = l, ch = 0\<rparr> \<lparr>line = l, ch = n\<rparr> e
          = take l e @ [txt @ drop n (e ! l)] @ drop (l + 1) e"
    using assms
    by (simp add: replaceRange_def clipPos_inside lineAt_def split_no_separator)
  also have "\<dots> = e[l := txt @ drop n (e ! l)]"
    using assms(1) by (simp add: upd_conv_take_nth_drop)
  finally show ?thesis .
qed

subsection \<open>Facts about the matcher\<close>

lemma ms_suffix: "t \<in> set (ms r s) \<Longrightarrow> \<exists>u. s = u @ t"
proof (induction r s arbitrary: t rule: ms.induct)
  case (1 p s)
  then show ?case
    by (cases s) (auto split: if_splits)
next
  case (2 a b s)
  from "2.prems" obtain x where x: "x \<in> set (ms a s)" and t: "t \<in> set (ms b x)"
    by auto
  from "2.IH"(1) [OF x] obtain u where "s = u @ x"
    by blast
  moreover from "2.IH"(2) [OF x t] obtain v where "x = v @ t"
    by blast
  ultimately have "s = (u @ v) @ t"
    by simp
  then show ?case
    by blast
next
  case (3 a b s)
  then show ?case
    by auto
next
  case (4 a s)
  then show ?case
    by auto
next
  case (5 a s)
  from "5.prems" consider "t = s"
    | x where "x \<in> set (ms a s)" "length x < length s" "t \<in> set (ms (Star a) x)"
    by (subst (asm) ms.simps(5)) (auto split: if_splits)
  then show ?case
  proof cases
    case 1
    then show ?thesis by simp
  next
    case 2
    from "5.IH"(1) [OF 2(1)] obtain u where "s = u @ x"
      by blast
    moreover from "5.IH"(2) [OF 2(1) 2(2) 2(3)] obtain v where "x = v @ t"
      by blast
    ultimately have "s = (u @ v) @ t"
      by simp
    then show ?thesis
      by blast
  qed
qed

lemma firstMatch_in_set: "firstMatch r s = Some t \<Longrightarrow> t \<in> set (ms r s)"
  by (auto simp: firstMatch_def split: list.splits)

lemma firstMatch_suffix: "firstMatch r s = Some t \<Longrightarrow> \<exists>u. s = u @ t"
  by (blast dest: firstMatch_in_set ms_suffix)

lemma matchAnchored_firstMatch:
  "matchAnchored r s =
     (case firstMatch r s of None \<Rightarrow> [] | Some t \<Rightarrow> [take (length s - length t) s])"
  by (simp add: matchAnchored_def firstMatch_def split: list.splits)

lemma matchAnchored_Some:
  assumes "firstMatch r (u @ t) = Some t"
  shows "matchAnchored r (u @ t) = [u]"
  using assms by (simp add: matchAnchored_firstMatch)

lemma hd_concat_member:
  "concat xss = t # ts \<Longrightarrow> \<exists>xs \<in> set xss. \<exists>ts'. xs = t # ts'"
proof (induction xss)
  case Nil
  then show ?case by simp
next
  case (Cons xs xss)
  then show ?case
    by (cases xs) auto
qed

lemma firstMatch_Seq_member:
  assumes "firstMatch (Seq a b) s = Some t"
  shows "\<exists>x \<in> set (ms a s). firstMatch b x = Some t"
proof -
  from assms obtain ts where "concat (map (ms b) (ms a s)) = t # ts"
    by (auto simp: firstMatch_def split: list.splits)
  from hd_concat_member [OF this] obtain xs ts' where
    "xs \<in> set (map (ms b) (ms a s))" and "xs = t # ts'"
    by blast
  then obtain x where "x \<in> set (ms a s)" and "ms b x = t # ts'"
    by auto
  then have "x \<in> set (ms a s) \<and> firstMatch b x = Some t"
    by (simp add: firstMatch_def)
  then show ?thesis
    by blast
qed

lemma firstMatch_Seq:
  assumes "firstMatch a s = Some x" and "firstMatch b x = Some y"
  shows "firstMatch (Seq a b) s = Some y"
  using assms by (auto simp: firstMatch_def split: list.splits)

lemma firstMatch_Seq_single:
  assumes "ms a s = [x]"
  shows "firstMatch (Seq a b) s = firstMatch b x"
  using assms by (simp add: firstMatch_def)

lemma firstMatch_Opt_taken: "firstMatch a s = Some x \<Longrightarrow> firstMatch (Opt a) s = Some x"
  by (auto simp: firstMatch_def split: list.splits)

lemma firstMatch_Opt_skipped: "ms a s = [] \<Longrightarrow> firstMatch (Opt a) s = Some s"
  by (simp add: firstMatch_def)

lemma ms_Star_Sym_Nil: "ms (Star (Sym p)) [] = [[]]"
  by (subst ms.simps(5)) simp

lemma ms_Star_Sym_Cons:
  "ms (Star (Sym p)) (c # cs) = (if p c then ms (Star (Sym p)) cs @ [c # cs] else [c # cs])"
  by (subst ms.simps(5)) simp

lemma firstMatch_Star_Sym: "firstMatch (Star (Sym p)) s = Some (dropWhile p s)"
proof (induction s)
  case Nil
  show ?case
    by (simp add: firstMatch_def ms_Star_Sym_Nil)
next
  case (Cons c cs)
  then show ?case
    by (auto simp: firstMatch_def ms_Star_Sym_Cons split: list.splits)
qed

lemma ms_Star_Sym_member:
  "x \<in> set (ms (Star (Sym p)) s) \<Longrightarrow> x = dropWhile p s \<or> (x \<noteq> [] \<and> p (hd x))"
proof (induction s)
  case Nil
  then show ?case
    by (simp add: ms_Star_Sym_Nil)
next
  case (Cons c cs)
  then show ?case
    by (auto simp: ms_Star_Sym_Cons split: if_splits)
qed

lemma ms_Plus_Sym:
  "ms (Plus (Sym p)) s =
     (case s of [] \<Rightarrow> [] | c # cs \<Rightarrow> if p c then ms (Star (Sym p)) cs else [])"
  by (cases s) (simp_all add: Plus_def)

lemma firstMatch_Plus_Sym:
  "firstMatch (Plus (Sym p)) s =
     (case s of [] \<Rightarrow> None | c # cs \<Rightarrow> if p c then Some (dropWhile p cs) else None)"
proof (cases s)
  case Nil
  then show ?thesis
    by (simp add: firstMatch_def ms_Plus_Sym)
next
  case (Cons c cs)
  have "firstMatch (Plus (Sym p)) (c # cs) = (if p c then firstMatch (Star (Sym p)) cs else None)"
    by (simp add: firstMatch_def ms_Plus_Sym)
  then show ?thesis
    by (simp add: Cons firstMatch_Star_Sym)
qed

lemma ms_Plus_Sym_member:
  assumes "x \<in> set (ms (Plus (Sym p)) s)"
  shows "s \<noteq> [] \<and> p (hd s) \<and> (x = dropWhile p s \<or> (x \<noteq> [] \<and> p (hd x)))"
proof (cases s)
  case Nil
  with assms show ?thesis
    by (simp add: ms_Plus_Sym)
next
  case (Cons c cs)
  with assms have pc: "p c" and x: "x \<in> set (ms (Star (Sym p)) cs)"
    by (auto simp: ms_Plus_Sym split: if_splits)
  from ms_Star_Sym_member [OF x] show ?thesis
    using pc Cons by auto
qed

subsection \<open>The marker run\<close>

lemma ms_Opt_Sym_member:
  "x \<in> set (ms (Opt (Sym p)) s) \<Longrightarrow> x = s \<or> (\<exists>c. s = c # x \<and> p c)"
  by (cases s) (auto split: if_splits)

lemma ms_Opt_Seq_Sym_member:
  "x \<in> set (ms (Opt (Seq (Sym p) r)) s) \<Longrightarrow>
     x = s \<or> (\<exists>c cs. s = c # cs \<and> p c \<and> x \<in> set (ms r cs))"
  by (cases s) (auto split: if_splits)

lemma ms_ws04_member:
  assumes "x \<in> set (ms ws04 s)"
  shows "\<exists>w. s = w @ x \<and> length w \<le> 4 \<and> list_all isWhiteSpace w"
proof -
  let ?r1 = "Opt (Sym isWhiteSpace)"
  let ?r2 = "Opt (Seq (Sym isWhiteSpace) ?r1)"
  let ?r3 = "Opt (Seq (Sym isWhiteSpace) ?r2)"
  have r1: "\<exists>w. s = w @ x \<and> length w \<le> 1 \<and> list_all isWhiteSpace w"
    if "x \<in> set (ms ?r1 s)" for s x
    using ms_Opt_Sym_member [OF that]
  proof
    assume "x = s"
    then have "s = [] @ x \<and> length ([] :: string) \<le> 1 \<and> list_all isWhiteSpace []"
      by simp
    then show ?thesis by blast
  next
    assume "\<exists>c. s = c # x \<and> isWhiteSpace c"
    then obtain c where "s = [c] @ x \<and> length [c] \<le> 1 \<and> list_all isWhiteSpace [c]"
      by auto
    then show ?thesis by blast
  qed
  have step: "\<exists>w. s = w @ x \<and> length w \<le> Suc n \<and> list_all isWhiteSpace w"
    if mem: "x \<in> set (ms (Opt (Seq (Sym isWhiteSpace) r)) s)"
      and inner: "\<And>s x. x \<in> set (ms r s) \<Longrightarrow>
        \<exists>w. s = w @ x \<and> length w \<le> n \<and> list_all isWhiteSpace w"
    for s x r n
    using ms_Opt_Seq_Sym_member [OF mem]
  proof
    assume "x = s"
    then have "s = [] @ x \<and> length ([] :: string) \<le> Suc n \<and> list_all isWhiteSpace []"
      by simp
    then show ?thesis by blast
  next
    assume "\<exists>c cs. s = c # cs \<and> isWhiteSpace c \<and> x \<in> set (ms r cs)"
    then obtain c cs where s: "s = c # cs" and c: "isWhiteSpace c" and x: "x \<in> set (ms r cs)"
      by blast
    from inner [OF x] obtain w where "cs = w @ x" "length w \<le> n" "list_all isWhiteSpace w"
      by blast
    then have "s = (c # w) @ x \<and> length (c # w) \<le> Suc n \<and> list_all isWhiteSpace (c # w)"
      using s c by simp
    then show ?thesis by blast
  qed
  have r2: "\<exists>w. s = w @ x \<and> length w \<le> Suc 1 \<and> list_all isWhiteSpace w"
    if "x \<in> set (ms ?r2 s)" for s x
    using that r1 by (rule step)
  have r3: "\<exists>w. s = w @ x \<and> length w \<le> Suc (Suc 1) \<and> list_all isWhiteSpace w"
    if "x \<in> set (ms ?r3 s)" for s x
    using that r2 by (rule step)
  have "\<exists>w. s = w @ x \<and> length w \<le> Suc (Suc (Suc 1)) \<and> list_all isWhiteSpace w"
    using assms [unfolded ws04_def] r3 by (rule step)
  then show ?thesis
    by (simp add: numeral_eq_Suc)
qed

lemma ms_ws04_no_space:
  assumes "s = [] \<or> \<not> isWhiteSpace (hd s)"
  shows "ms ws04 s = [s]"
  using assms by (cases s) (simp_all add: ws04_def)

lemma isHash_not_space: "isHash c \<Longrightarrow> \<not> isWhiteSpace c"
  by (simp add: isHash_def isWhiteSpace_def)

lemma Lit_hash: "Lit CHR ''#'' = Sym isHash"
  by (simp add: Lit_def isHash_def [abs_def])

lemma Lit_space: "Lit CHR '' '' = Sym isSpace"
  by (simp add: Lit_def isSpace_def [abs_def])

lemma trimLeft_marker:
  assumes "list_all isWhiteSpace w" and "hash \<noteq> []" and "list_all isHash hash"
  shows "trimLeft (w @ hash) = hash"
proof -
  have "\<not> isWhiteSpace (hd hash)"
    using assms(2,3) by (cases hash) (simp_all add: isHash_not_space)
  then have "dropWhile isWhiteSpace hash = hash"
    using assms(2) by (cases hash) simp_all
  then show ?thesis
    using assms(1) by (simp add: trimLeft_def dropWhile_append list_all_iff)
qed

text \<open>What a marker run is: at most four white-space characters before it, then \<open>#\<close>s.\<close>

lemma markerOf_Some:
  assumes "markerOf l = Some hash"
  shows "\<exists>w t. l = w @ hash @ t \<and> length w \<le> 4 \<and> list_all isWhiteSpace w
           \<and> hash \<noteq> [] \<and> list_all isHash hash \<and> (t = [] \<or> \<not> isHash (hd t))"
proof -
  from assms obtain t where fm: "firstMatch markerRegex l = Some t"
    and hash: "hash = trimLeft (take (length l - length t) l)"
    by (auto simp: markerOf_def matchAnchored_firstMatch split: option.splits)
  from firstMatch_Seq_member [OF fm [unfolded markerRegex_def]] obtain x where
    x: "x \<in> set (ms ws04 l)" and fx: "firstMatch (Plus (Lit CHR ''#'')) x = Some t"
    by blast
  from ms_ws04_member [OF x] obtain w where
    l: "l = w @ x" and w: "length w \<le> 4" "list_all isWhiteSpace w"
    by blast
  from fx obtain c cs where xc: "x = c # cs" and c: "isHash c" and t: "t = dropWhile isHash cs"
    by (auto simp: Lit_hash firstMatch_Plus_Sym split: list.splits if_splits)
  let ?hash = "c # takeWhile isHash cs"
  have xh: "x = ?hash @ t"
    by (simp add: xc t)
  have hh: "list_all isHash ?hash"
    using c by (simp add: list_all_iff) (meson set_takeWhileD)
  have tt: "t = [] \<or> \<not> isHash (hd t)"
    unfolding t by (metis hd_dropWhile)
  have "take (length l - length t) l = w @ ?hash"
    by (simp add: l xh)
  then have "hash = ?hash"
    using hash trimLeft_marker [OF w(2) _ hh] by simp
  then have "l = w @ hash @ t \<and> length w \<le> 4 \<and> list_all isWhiteSpace w
           \<and> hash \<noteq> [] \<and> list_all isHash hash \<and> (t = [] \<or> \<not> isHash (hd t))"
    using l xh w hh tt by simp
  then show ?thesis
    by blast
qed

lemma firstMatch_marker_line:
  assumes "hash \<noteq> []" and "list_all isHash hash" and "t = [] \<or> \<not> isHash (hd t)"
  shows "firstMatch markerRegex (hash @ t) = Some t"
proof -
  obtain c cs where hc: "hash = c # cs"
    using assms(1) by (cases hash) auto
  have c: "isHash c" and cs: "list_all isHash cs"
    using assms(2) by (simp_all add: hc)
  have "ms ws04 (hash @ t) = [hash @ t]"
    using c by (intro ms_ws04_no_space) (simp add: hc isHash_not_space)
  then have "firstMatch markerRegex (hash @ t) = firstMatch (Plus (Sym isHash)) (hash @ t)"
    by (simp add: markerRegex_def Lit_hash firstMatch_Seq_single)
  also have "\<dots> = Some (dropWhile isHash (cs @ t))"
    using c by (simp add: hc firstMatch_Plus_Sym)
  also have "dropWhile isHash (cs @ t) = dropWhile isHash t"
    using cs by (simp add: dropWhile_append list_all_iff)
  also have "\<dots> = t"
    using assms(3) by (cases t) auto
  finally show ?thesis .
qed

lemma markerOf_marker_line:
  assumes "hash \<noteq> []" and "list_all isHash hash" and "t = [] \<or> \<not> isHash (hd t)"
  shows "markerOf (hash @ t) = Some hash"
proof -
  have "matchAnchored markerRegex (hash @ t) = [hash]"
    using firstMatch_marker_line [OF assms] by (rule matchAnchored_Some)
  moreover have "trimLeft hash = hash"
    using trimLeft_marker [of "[]" hash] assms(1,2) by simp
  ultimately show ?thesis
    by (simp add: markerOf_def)
qed

subsection \<open>Number groups and the numbering string\<close>

lemma concat_map_empty: "(\<And>x. x \<in> set xs \<Longrightarrow> f x = []) \<Longrightarrow> concat (map f xs) = []"
  by (induction xs) simp_all

lemma ms_Star_Sym_shape:
  "\<exists>others. ms (Star (Sym p)) s = dropWhile p s # others
     \<and> (\<forall>x \<in> set others. x \<noteq> [] \<and> p (hd x))"
proof (induction s)
  case Nil
  show ?case
    by (simp add: ms_Star_Sym_Nil)
next
  case (Cons c cs)
  show ?case
  proof (cases "p c")
    case True
    from Cons.IH obtain others where
      o: "ms (Star (Sym p)) cs = dropWhile p cs # others"
        "\<forall>x \<in> set others. x \<noteq> [] \<and> p (hd x)"
      by blast
    have "ms (Star (Sym p)) (c # cs) = dropWhile p (c # cs) # (others @ [c # cs])
          \<and> (\<forall>x \<in> set (others @ [c # cs]). x \<noteq> [] \<and> p (hd x))"
      using True o by (simp add: ms_Star_Sym_Cons)
    then show ?thesis
      by blast
  next
    case False
    then have "ms (Star (Sym p)) (c # cs) = dropWhile p (c # cs) # []
          \<and> (\<forall>x \<in> set ([] :: string list). x \<noteq> [] \<and> p (hd x))"
      by (simp add: ms_Star_Sym_Cons)
    then show ?thesis
      by blast
  qed
qed

lemma ms_Sym_dot_digit: "x \<noteq> [] \<and> isDigit (hd x) \<Longrightarrow> ms (Lit CHR ''.'') x = []"
  by (cases x) (auto simp: Lit_def isDigit_def)

lemma ms_digits_dot:
  "ms (Seq (Plus (Sym isDigit)) (Lit CHR ''.'')) s =
     (case s of
        [] \<Rightarrow> []
      | c # cs \<Rightarrow>
          if isDigit c then
            (case dropWhile isDigit cs of
               [] \<Rightarrow> []
             | d # t \<Rightarrow> if d = CHR ''.'' then [t] else [])
          else [])"
proof (cases s)
  case Nil
  then show ?thesis
    by (simp add: ms_Plus_Sym)
next
  case (Cons c cs)
  show ?thesis
  proof (cases "isDigit c")
    case False
    then show ?thesis
      by (simp add: Cons ms_Plus_Sym)
  next
    case True
    from ms_Star_Sym_shape [of isDigit cs] obtain others where
      o: "ms (Star (Sym isDigit)) cs = dropWhile isDigit cs # others"
        "\<forall>x \<in> set others. x \<noteq> [] \<and> isDigit (hd x)"
      by blast
    have "concat (map (ms (Lit CHR ''.'')) others) = []"
      using o(2) by (intro concat_map_empty ms_Sym_dot_digit) blast
    then have "ms (Seq (Plus (Sym isDigit)) (Lit CHR ''.'')) s
                 = ms (Lit CHR ''.'') (dropWhile isDigit cs)"
      using True by (simp add: Cons ms_Plus_Sym o(1))
    then show ?thesis
      using True by (simp add: Cons Lit_def split: list.splits)
  qed
qed

lemma ms_upper_dot:
  "ms (Seq (Sym isUpper) (Lit CHR ''.'')) s =
     (case s of
        [] \<Rightarrow> []
      | c # cs \<Rightarrow>
          if isUpper c then
            (case cs of
               [] \<Rightarrow> []
             | d # t \<Rightarrow> if d = CHR ''.'' then [t] else [])
          else [])"
  by (cases s) (simp_all add: Lit_def split: list.splits)

lemma digit_not_upper: "isDigit c \<Longrightarrow> \<not> isUpper c"
  by (simp add: isDigit_def isUpper_def)

lemma ms_numberGroup:
  "ms numberGroup s = (case groupRest s of None \<Rightarrow> [] | Some t \<Rightarrow> [t])"
proof -
  have "ms numberGroup s
          = ms (Seq (Plus (Sym isDigit)) (Lit CHR ''.'')) s @ ms (Seq (Sym isUpper) (Lit CHR ''.'')) s"
    by (simp only: numberGroup_def ms.simps(3))
  note eq = this [unfolded ms_digits_dot ms_upper_dot]
  show ?thesis
  proof (cases s)
    case Nil
    then show ?thesis
      using eq by (simp add: groupRest_def)
  next
    case (Cons c cs)
    show ?thesis
    proof (cases "isDigit c")
      case True
      define r where "r = dropWhile isDigit cs"
      have "ms numberGroup s
              = (case r of [] \<Rightarrow> [] | d # t \<Rightarrow> if d = CHR ''.'' then [t] else [])"
        using eq True digit_not_upper [OF True] by (simp add: Cons r_def)
      moreover have "groupRest s
              = (case r of [] \<Rightarrow> None | d # t \<Rightarrow> if d = CHR ''.'' then Some t else None)"
        using True by (simp add: Cons groupRest_def r_def)
      ultimately show ?thesis
        by (cases r) simp_all
    next
      case False
      then show ?thesis
        using eq by (cases cs) (simp_all add: Cons groupRest_def)
    qed
  qed
qed

lemma groupRest_shorter: "groupRest s = Some t \<Longrightarrow> length t < length s"
proof -
  assume g: "groupRest s = Some t"
  then obtain c cs where s: "s = c # cs"
    by (cases s) (auto simp: groupRest_def)
  have "length (dropWhile isDigit cs) \<le> length cs"
    by (rule length_dropWhile_le)
  then show ?thesis
    using g by (auto simp: s groupRest_def split: if_splits list.splits)
qed

lemma ms_Star_group_None: "groupRest s = None \<Longrightarrow> ms (Star numberGroup) s = [s]"
  by (subst ms.simps(5)) (simp add: ms_numberGroup)

lemma ms_Star_group_Some:
  "groupRest s = Some t \<Longrightarrow> ms (Star numberGroup) s = ms (Star numberGroup) t @ [s]"
  by (subst ms.simps(5)) (simp add: ms_numberGroup groupRest_shorter)

lemma ms_Star_not_empty: "ms (Star a) s \<noteq> []"
  by (subst ms.simps(5)) simp

lemma firstMatch_Star_group_None:
  "groupRest s = None \<Longrightarrow> firstMatch (Star numberGroup) s = Some s"
  by (simp add: firstMatch_def ms_Star_group_None)

lemma firstMatch_Star_group_Some:
  "groupRest s = Some t \<Longrightarrow> firstMatch (Star numberGroup) s = firstMatch (Star numberGroup) t"
  using ms_Star_not_empty [of numberGroup t]
  by (simp add: firstMatch_def ms_Star_group_Some split: list.splits)

subsection \<open>The pattern on a line that carries a computed prefix\<close>

lemma prefixRegex_parts:
  "prefixRegex = Seq ws04 (Seq (Plus (Sym isHash)) (Seq (Opt (Sym isSpace)) bodyRegex))"
  by (simp add: prefixRegex_def bodyRegex_def tokenTail_def Lit_hash Lit_space)

lemma isDigit_digitChar: "d < 10 \<Longrightarrow> isDigit (digitChar d)"
  by (simp add: isDigit_def digitChar_def)

lemma natToString_digits: "natToString n \<noteq> [] \<and> list_all isDigit (natToString n)"
proof (induction n rule: natToString.induct)
  case (1 n)
  show ?case
  proof (cases "n < 10")
    case True
    then show ?thesis
      by (subst (1 2) natToString.simps) (simp add: isDigit_digitChar)
  next
    case False
    have "n mod 10 < 10"
      by simp
    then have "isDigit (digitChar (n mod 10))"
      by (rule isDigit_digitChar)
    then show ?thesis
      using False "1.IH" by (subst (1 2) natToString.simps) simp
  qed
qed

lemma tokenToString_cases:
  assumes "goodToken t"
  obtains (digits) d ds where "tokenToString t = d # ds" "isDigit d" "list_all isDigit ds"
  | (letter) c where "tokenToString t = [c]" "isUpper c"
proof (cases t)
  case (Num n)
  obtain d ds where "natToString n = d # ds"
    using natToString_digits [of n] by (cases "natToString n") auto
  then show ?thesis
    using natToString_digits [of n] Num by (intro digits [of d ds]) (simp_all add: tokenToString_def)
next
  case (Str s)
  then obtain c where "s = [c]" "isUpper c"
    using assms by (auto simp: goodToken_def split: list.splits)
  then show ?thesis
    using Str by (intro letter [of c]) (simp_all add: tokenToString_def)
qed

lemma dot_not_digit: "\<not> isDigit CHR ''.''"
  by (simp add: isDigit_def)

lemma groupRest_token:
  assumes "goodToken t"
  shows "groupRest (tokenToString t @ CHR ''.'' # rest) = Some rest"
  using assms
proof (cases rule: tokenToString_cases)
  case (digits d ds)
  have "dropWhile isDigit (ds @ CHR ''.'' # rest) = CHR ''.'' # rest"
    using digits(3) by (simp add: dropWhile_append list_all_iff dot_not_digit)
  then show ?thesis
    using digits by (simp add: groupRest_def)
next
  case (letter c)
  then show ?thesis
    by (simp add: groupRest_def digit_not_upper [THEN contrapos_pn])
       (auto simp: digit_not_upper)
qed

lemma groupRest_token_end:
  assumes "goodToken t" and "rest = [] \<or> (hd rest \<noteq> CHR ''.'' \<and> \<not> isDigit (hd rest))"
  shows "groupRest (tokenToString t @ rest) = None"
  using assms(1)
proof (cases rule: tokenToString_cases)
  case (digits d ds)
  define r where "r = dropWhile isDigit (ds @ rest)"
  have "r = rest"
    using digits(3) assms(2) by (cases rest) (simp_all add: r_def dropWhile_append list_all_iff)
  moreover have "groupRest (tokenToString t @ rest)
          = (case r of [] \<Rightarrow> None | c # u \<Rightarrow> if c = CHR ''.'' then Some u else None)"
    using digits(1,2) by (simp add: groupRest_def r_def)
  ultimately show ?thesis
    using assms(2) by (cases rest) simp_all
next
  case (letter c)
  then show ?thesis
    using assms(2) by (cases rest) (auto simp: groupRest_def)
qed

lemma groupRest_space: "groupRest (CHR '' '' # rest) = None"
  by (simp add: groupRest_def isDigit_def isUpper_def)

lemma firstMatch_lastToken:
  assumes "goodToken t" and "rest = [] \<or> \<not> isDigit (hd rest)"
  shows "firstMatch lastToken (tokenToString t @ rest) = Some rest"
  using assms(1)
proof (cases rule: tokenToString_cases)
  case (digits d ds)
  have "dropWhile isDigit (ds @ rest) = rest"
    using digits(3) assms(2) by (cases rest) (simp_all add: dropWhile_append list_all_iff)
  then have "firstMatch (Plus (Sym isDigit)) (tokenToString t @ rest) = Some rest"
    using digits by (simp add: firstMatch_Plus_Sym)
  then show ?thesis
    by (auto simp: lastToken_def firstMatch_def split: list.splits)
next
  case (letter c)
  then show ?thesis
    using digit_not_upper [of c]
    by (auto simp: lastToken_def firstMatch_def ms_Plus_Sym)
qed

lemma firstMatch_spaces:
  "firstMatch (Plus (Lit CHR '' '')) (CHR '' '' # rest) = Some (dropWhile isSpace rest)"
  by (simp add: Lit_space firstMatch_Plus_Sym isSpace_def)

lemma ms_lastToken_other:
  "\<not> isDigit c \<Longrightarrow> \<not> isUpper c \<Longrightarrow> ms lastToken (c # rest) = []"
  by (simp add: lastToken_def ms_Plus_Sym)

lemma tokenTail_space:
  "firstMatch tokenTail (CHR '' '' # rest) = Some (dropWhile isSpace rest)"
proof -
  have "ms lastToken (CHR '' '' # rest) = []"
    by (rule ms_lastToken_other) (simp_all add: isDigit_def isUpper_def)
  then have a: "firstMatch (Opt lastToken) (CHR '' '' # rest) = Some (CHR '' '' # rest)"
    by (rule firstMatch_Opt_skipped)
  have "ms punct (CHR '' '' # rest) = []"
    by (simp add: punct_def)
  then have b: "firstMatch (Opt punct) (CHR '' '' # rest) = Some (CHR '' '' # rest)"
    by (rule firstMatch_Opt_skipped)
  show ?thesis
    unfolding tokenTail_def
    by (intro firstMatch_Seq [OF a] firstMatch_Seq [OF b] firstMatch_spaces)
qed

lemma tokenTail_token:
  assumes "goodToken t" and "sep = [] \<or> sep = '':'' \<or> sep = ''-''"
  shows "firstMatch tokenTail (tokenToString t @ sep @ CHR '' '' # rest)
           = Some (dropWhile isSpace rest)"
proof -
  have "sep @ CHR '' '' # rest = [] \<or> \<not> isDigit (hd (sep @ CHR '' '' # rest))"
    using assms(2) by (auto simp: isDigit_def)
  with assms(1) have "firstMatch lastToken (tokenToString t @ sep @ CHR '' '' # rest)
                        = Some (sep @ CHR '' '' # rest)"
    by (rule firstMatch_lastToken)
  then have a: "firstMatch (Opt lastToken) (tokenToString t @ sep @ CHR '' '' # rest)
                  = Some (sep @ CHR '' '' # rest)"
    by (rule firstMatch_Opt_taken)
  have b: "firstMatch (Opt punct) (sep @ CHR '' '' # rest) = Some (CHR '' '' # rest)"
    using assms(2) by (auto simp: firstMatch_def punct_def)
  show ?thesis
    unfolding tokenTail_def
    by (intro firstMatch_Seq [OF a] firstMatch_Seq [OF b] firstMatch_spaces)
qed

lemma body_step:
  assumes "groupRest s = Some t" and "firstMatch bodyRegex t = Some y"
  shows "firstMatch bodyRegex s = Some y"
proof -
  have "ms bodyRegex s = ms bodyRegex t @ ms tokenTail s"
    by (simp add: bodyRegex_def ms_Star_group_Some [OF assms(1)])
  then show ?thesis
    using assms(2) by (auto simp: firstMatch_def split: list.splits)
qed

lemma body_stop:
  assumes "groupRest s = None"
  shows "firstMatch bodyRegex s = firstMatch tokenTail s"
  using assms by (simp add: bodyRegex_def firstMatch_def ms_Star_group_None)

lemma body_space: "firstMatch bodyRegex (CHR '' '' # rest) = Some (dropWhile isSpace rest)"
  by (simp add: body_stop groupRest_space tokenTail_space)

lemma body_numbering:
  assumes "goodToken t" and "list_all goodToken ts" and "validSeparator sep"
  shows "firstMatch bodyRegex (tokenToString t @ numberingParts ts @ sep @ CHR '' '' # rest)
           = Some (dropWhile isSpace rest)"
  using assms(1,2)
proof (induction ts arbitrary: t)
  case Nil
  show ?case
  proof (cases "sep = ''.''")
    case True
    have "groupRest (tokenToString t @ CHR ''.'' # CHR '' '' # rest) = Some (CHR '' '' # rest)"
      using Nil.prems(1) by (rule groupRest_token)
    then show ?thesis
      using True by (simp add: body_step [OF _ body_space])
  next
    case False
    then have sep: "sep = [] \<or> sep = '':'' \<or> sep = ''-''"
      using assms(3) by (auto simp: validSeparator_def)
    then have "sep @ CHR '' '' # rest = []
        \<or> (hd (sep @ CHR '' '' # rest) \<noteq> CHR ''.'' \<and> \<not> isDigit (hd (sep @ CHR '' '' # rest)))"
      by (auto simp: isDigit_def)
    with Nil.prems(1) have "groupRest (tokenToString t @ sep @ CHR '' '' # rest) = None"
      by (rule groupRest_token_end)
    then show ?thesis
      using tokenTail_token [OF Nil.prems(1) sep] by (simp add: body_stop)
  qed
next
  case (Cons t2 ts)
  have "groupRest (tokenToString t
          @ CHR ''.'' # (tokenToString t2 @ numberingParts ts @ sep @ CHR '' '' # rest))
        = Some (tokenToString t2 @ numberingParts ts @ sep @ CHR '' '' # rest)"
    using Cons.prems(1) by (rule groupRest_token)
  moreover have "firstMatch bodyRegex (tokenToString t2 @ numberingParts ts @ sep @ CHR '' '' # rest)
        = Some (dropWhile isSpace rest)"
    using Cons.prems(2) by (intro Cons.IH) simp_all
  ultimately show ?case
    by (simp add: body_step)
qed

lemma firstMatch_hashes:
  assumes "hash \<noteq> []" and "list_all isHash hash" and "y = [] \<or> \<not> isHash (hd y)"
  shows "firstMatch (Plus (Sym isHash)) (hash @ y) = Some y"
proof -
  obtain c cs where hc: "hash = c # cs"
    using assms(1) by (cases hash) auto
  have "dropWhile isHash (cs @ y) = y"
    using assms(2,3) by (cases y) (simp_all add: hc dropWhile_append list_all_iff)
  then show ?thesis
    using assms(2) by (simp add: hc firstMatch_Plus_Sym)
qed

lemma prefix_after_marker:
  assumes "hash \<noteq> []" and "list_all isHash hash"
    and "firstMatch (Seq (Opt (Sym isSpace)) bodyRegex) (CHR '' '' # y) = Some z"
  shows "firstMatch prefixRegex (hash @ CHR '' '' # y) = Some z"
proof -
  have "\<not> isWhiteSpace (hd (hash @ CHR '' '' # y))"
    using assms(1,2) by (cases hash) (simp_all add: isHash_not_space)
  then have "ms ws04 (hash @ CHR '' '' # y) = [hash @ CHR '' '' # y]"
    by (intro ms_ws04_no_space) simp
  moreover have "firstMatch (Plus (Sym isHash)) (hash @ CHR '' '' # y) = Some (CHR '' '' # y)"
    using assms(1,2) by (intro firstMatch_hashes) (simp_all add: isHash_def)
  ultimately show ?thesis
    using assms(3) by (simp add: prefixRegex_parts firstMatch_Seq_single firstMatch_Seq)
qed

lemma prefix_numbered_line:
  assumes "hash \<noteq> []" and "list_all isHash hash"
    and "goodToken t" and "list_all goodToken ts" and "validSeparator sep"
  shows "firstMatch prefixRegex (hash @ makeNumberingString (t # ts) @ sep @ CHR '' '' # rest)
           = Some (dropWhile isSpace rest)"
proof -
  let ?y = "tokenToString t @ numberingParts ts @ sep @ CHR '' '' # rest"
  have "firstMatch (Opt (Sym isSpace)) (CHR '' '' # ?y) = Some ?y"
    by (simp add: firstMatch_def isSpace_def)
  then have "firstMatch (Seq (Opt (Sym isSpace)) bodyRegex) (CHR '' '' # ?y)
               = Some (dropWhile isSpace rest)"
    using body_numbering [OF assms(3,4,5)] by (rule firstMatch_Seq)
  from prefix_after_marker [OF assms(1,2) this] show ?thesis
    by (simp add: makeNumberingString_def)
qed

lemma body_fails_no_space:
  assumes "ms bodyRegex rest = []"
  shows "dropWhile isSpace rest = rest"
proof (cases rest)
  case Nil
  then show ?thesis by simp
next
  case (Cons c cs)
  have "c \<noteq> CHR '' ''"
  proof
    assume "c = CHR '' ''"
    then have "firstMatch bodyRegex rest = Some (dropWhile isSpace cs)"
      by (simp add: Cons body_space)
    then show False
      using assms by (simp add: firstMatch_def)
  qed
  then show ?thesis
    by (simp add: Cons isSpace_def)
qed

lemma prefix_stripped_line:
  assumes "hash \<noteq> []" and "list_all isHash hash" and "ms bodyRegex rest = []"
  shows "firstMatch prefixRegex (hash @ CHR '' '' # rest) = Some rest"
proof -
  have "ms (Seq (Opt (Sym isSpace)) bodyRegex) (CHR '' '' # rest) = ms bodyRegex (CHR '' '' # rest)"
    using assms(3) by (simp add: isSpace_def)
  then have "firstMatch (Seq (Opt (Sym isSpace)) bodyRegex) (CHR '' '' # rest)
               = firstMatch bodyRegex (CHR '' '' # rest)"
    by (simp add: firstMatch_def)
  also have "\<dots> = Some rest"
    by (simp add: body_space body_fails_no_space [OF assms(3)])
  finally show ?thesis
    by (rule prefix_after_marker [OF assms(1,2)])
qed

subsection \<open>The example of five headings\<close>

lemma example_ranges:
  "map (getHeadingPrefixRange exampleDoc) exampleHeadings =
     [Some \<lparr>range_from = \<lparr>line = 0, ch = 0\<rparr>, range_to = \<lparr>line = 0, ch = 2\<rparr>\<rparr>,
      Some \<lparr>range_from = \<lparr>line = 1, ch = 0\<rparr>, range_to = \<lparr>line = 1, ch = 3\<rparr>\<rparr>,
      Some \<lparr>range_from = \<lparr>line = 2, ch = 0\<rparr>, range_to = \<lparr>line = 2, ch = 3\<rparr>\<rparr>,
      Some \<lparr>range_from = \<lparr>line = 3, ch = 0\<rparr>, range_to = \<lparr>line = 3, ch = 2\<rparr>\<rparr>,
      Some \<lparr>range_from = \<lparr>line = 4, ch = 0\<rparr>, range_to = \<lparr>line = 4, ch = 3\<rparr>\<rparr>]"
  by code_simp

lemma example_hashes:
  "map (makeHeadingHashString exampleDoc) exampleHeadings =
     [Some ''#'', Some ''##'', Some ''##'', Some ''#'', Some ''##'']"
  by code_simp

lemma example_previous_texts:
  "map (\<lambda>h. case getHeadingPrefixRange exampleDoc h of
               None \<Rightarrow> []
             | Some r \<Rightarrow> getRange exampleDoc (range_from r) (range_to r)) exampleHeadings =
     [''# '', ''## '', ''## '', ''# '', ''## '']"
  by code_simp

lemma example_transaction:
  "transaction exampleDoc exampleChanges =
     [''# 1. Intro'', ''## 1.1. Background'', ''## 1.2. Related Work'', ''# 2. Methods'',
      ''## 2.1. Setup'']"
  by (simp add: transaction_def exampleDoc_def exampleChanges_def replaceRange_line)

lemma example_batch:
  assumes "2 \<le> maxLevel s" and "\<not> skipTopLevel s" and "styleLevel1 s = ''1''"
    and "styleLevelOther s = ''1''" and "separator s = ''.''"
  shows "updateHeadingNumbering (Some \<lparr>vi_headings = Some exampleHeadings, vi_editor = exampleDoc\<rparr>) s
           = Some exampleChanges"
  using assms
    example_ranges [unfolded exampleHeadings_def, simplified]
    example_hashes [unfolded exampleHeadings_def, simplified]
    example_previous_texts [unfolded exampleHeadings_def, simplified]
  by (simp add: updateHeadingNumbering_def exampleHeadings_def exampleChanges_def headingStep_def
        excluded_def adjustStack_def popPushNext_def initialState_def replaceRangeSafely_def
        zerothNumberingTokenInStyle_def firstNumberingTokenInStyle_def nextNumberingToken_def
        makeNumberingString_def tokenToString_def natToString.simps digitChar_def
        char_of_eq_iff Let_def)

text \<open>
  Claim C3. On the headings Intro (level 1), Background (2), Related Work (2), Methods (1)
  and Setup (2), with styles \<open>1\<close> and \<open>1\<close>, separator \<open>.\<close>, a maximum level of at
  least 2 and the top level not skipped, the operation writes the prefixes \<open>1\<close>,
  \<open>1.1\<close>, \<open>1.2\<close>, \<open>2\<close> and \<open>2.1\<close>, each between the marker run and the separator.
\<close>

theorem example_numbering:
  assumes "2 \<le> maxLevel s" and "\<not> skipTopLevel s" and "styleLevel1 s = ''1''"
    and "styleLevelOther s = ''1''" and "separator s = ''.''"
  shows "updateHeadingNumbering
           (Some \<lparr>vi_headings = Some exampleHeadings, vi_editor = exampleDoc\<rparr>) s
           = Some exampleChanges
       \<and> map change_text exampleChanges
           = [''# 1. '', ''## 1.1. '', ''## 1.2. '', ''# 2. '', ''## 2.1. '']
       \<and> afterOperation exampleDoc (updateHeadingNumbering
              (Some \<lparr>vi_headings = Some exampleHeadings, vi_editor = exampleDoc\<rparr>) s)
           = [''# 1. Intro'', ''## 1.1. Background'', ''## 1.2. Related Work'', ''# 2. Methods'',
              ''## 2.1. Setup'']"
proof -
  have batch: "updateHeadingNumbering
      (Some \<lparr>vi_headings = Some exampleHeadings, vi_editor = exampleDoc\<rparr>) s
      = Some exampleChanges"
    using assms by (rule example_batch)
  have texts: "map change_text exampleChanges
      = [''# 1. '', ''## 1.1. '', ''## 1.2. '', ''# 2. '', ''## 2.1. '']"
    by (simp add: exampleChanges_def)
  have "afterOperation exampleDoc (Some exampleChanges)
      = [''# 1. Intro'', ''## 1.1. Background'', ''## 1.2. Related Work'', ''# 2. Methods'',
         ''## 2.1. Setup'']"
    by (simp add: afterOperation_def example_transaction)
  then show ?thesis
    using batch texts by (simp only: simp_thms)
qed

theorem example_numbering_witness:
  "2 \<le> maxLevel defaultSettings \<and> \<not> skipTopLevel defaultSettings
   \<and> styleLevel1 defaultSettings = ''1'' \<and> styleLevelOther defaultSettings = ''1''
   \<and> separator defaultSettings = ''.''
   \<and> updateHeadingNumbering
        (Some \<lparr>vi_headings = Some exampleHeadings, vi_editor = exampleDoc\<rparr>) defaultSettings
        = Some exampleChanges
   \<and> afterOperation exampleDoc (updateHeadingNumbering
          (Some \<lparr>vi_headings = Some exampleHeadings, vi_editor = exampleDoc\<rparr>) defaultSettings)
        = [''# 1. Intro'', ''## 1.1. Background'', ''## 1.2. Related Work'', ''# 2. Methods'',
           ''## 2.1. Setup'']"
proof -
  have s: "2 \<le> maxLevel defaultSettings" "\<not> skipTopLevel defaultSettings"
    "styleLevel1 defaultSettings = ''1''" "styleLevelOther defaultSettings = ''1''"
    "separator defaultSettings = ''.''"
    by (simp_all add: defaultSettings_def)
  note run = example_numbering [OF s]
  show ?thesis
    by (intro conjI s run [THEN conjunct1] run [THEN conjunct2, THEN conjunct2])
qed

subsection \<open>The scanner in terms of the heading's line\<close>

lemma headingLine_Some:
  "headingLine e h \<noteq> [] \<Longrightarrow>
     start_line h < length e \<and> e ! start_line h = headingLine e h
     \<and> getLine e (start_line h) = Some (headingLine e h)"
  by (auto simp: headingLine_def getLine_def split: if_splits)

lemma headingLine_in_range:
  "start_line h < length e \<Longrightarrow> headingLine e h = e ! start_line h"
  by (simp add: headingLine_def getLine_def)

lemma matchAnchored_length: "length (matchAnchored r s) \<le> 1"
  by (simp add: matchAnchored_def split: list.splits)

lemma prefixLength_le: "prefixLength l \<le> length l"
  by (simp add: prefixLength_def matchAnchored_def split: list.splits)

lemma prefixLength_firstMatch:
  "firstMatch prefixRegex (u @ t) = Some t \<Longrightarrow> prefixLength (u @ t) = length u"
  by (simp add: prefixLength_def matchAnchored_Some)

lemma getHeadingPrefixRange_line:
  "getHeadingPrefixRange e h =
     (if headingLine e h = [] then None
      else Some (prefixRange (start_line h) (prefixLength (headingLine e h))))"
proof (cases "getLine e (start_line h)")
  case None
  then show ?thesis
    by (simp add: getHeadingPrefixRange_def headingLine_def)
next
  case (Some l)
  have "matchAnchored prefixRegex l = [] \<or> (\<exists>m. matchAnchored prefixRegex l = [m])"
    by (simp add: matchAnchored_def split: list.splits)
  then show ?thesis
    using Some
    by (auto simp: getHeadingPrefixRange_def headingLine_def prefixLength_def prefixRange_def)
qed

lemma makeHeadingHashString_line:
  "makeHeadingHashString e h =
     (if headingLine e h = [] then None else markerOf (headingLine e h))"
proof (cases "getLine e (start_line h)")
  case None
  then show ?thesis
    by (simp add: makeHeadingHashString_def headingLine_def)
next
  case (Some l)
  have "matchAnchored markerRegex l = [] \<or> (\<exists>m. matchAnchored markerRegex l = [m])"
    by (simp add: matchAnchored_def split: list.splits)
  then show ?thesis
    using Some
    by (auto simp: makeHeadingHashString_def headingLine_def markerOf_def)
qed

lemma markerOf_empty: "markerOf [] = None"
  by (simp add: markerOf_def matchAnchored_def markerRegex_def ws04_def Plus_def Lit_def)

lemma makeHeadingHashString_marker:
  "makeHeadingHashString e h = markerOf (headingLine e h)"
  by (simp add: makeHeadingHashString_line markerOf_empty)

lemma getRange_prefix:
  assumes "headingLine e h \<noteq> []"
  shows "getRange e \<lparr>line = start_line h, ch = 0\<rparr>
           \<lparr>line = start_line h, ch = prefixLength (headingLine e h)\<rparr>
         = take (prefixLength (headingLine e h)) (headingLine e h)"
  using headingLine_Some [OF assms] prefixLength_le [of "headingLine e h"]
  by (simp add: getRange_line)

lemma marker_no_newline:
  assumes "list_all isHash hash"
  shows "CHR 0x0A \<notin> set hash"
  using assms by (auto simp: list_all_iff isHash_def)

text \<open>
  The effect of one computed replacement on its line, whether the edit is emitted or
  left out because the text is there already.
\<close>

lemma replaceRangeSafely_line:
  assumes "headingLine e h \<noteq> []" and "CHR 0x0A \<notin> set txt"
  shows "transaction e (newChanges cs
             (replaceRangeSafely e cs
                (prefixRange (start_line h) (prefixLength (headingLine e h))) txt))
           = e[start_line h := txt @ drop (prefixLength (headingLine e h)) (headingLine e h)]"
proof -
  let ?l = "start_line h" and ?n = "prefixLength (headingLine e h)"
  note line = headingLine_Some [OF assms(1)]
  show ?thesis
  proof (cases "take ?n (headingLine e h) = txt")
    case True
    then have "replaceRangeSafely e cs (prefixRange ?l ?n) txt = cs"
      by (simp add: replaceRangeSafely_def prefixRange_def getRange_prefix [OF assms(1)])
    moreover have "txt @ drop ?n (headingLine e h) = e ! ?l"
      using line by (simp add: True [symmetric])
    ultimately show ?thesis
      by (simp add: newChanges_def transaction_def)
  next
    case False
    then have "replaceRangeSafely e cs (prefixRange ?l ?n) txt
                 = cs @ [\<lparr>change_text = txt, change_from = \<lparr>line = ?l, ch = 0\<rparr>,
                           change_to = \<lparr>line = ?l, ch = ?n\<rparr>\<rparr>]"
      by (simp add: replaceRangeSafely_def getRange_prefix [OF assms(1)] prefixRange_def)
    moreover have "replaceRange txt \<lparr>line = ?l, ch = 0\<rparr> \<lparr>line = ?l, ch = ?n\<rparr> e
                     = e[?l := txt @ drop ?n (e ! ?l)]"
      using line prefixLength_le [of "headingLine e h"] assms(2)
      by (intro replaceRange_line) simp_all
    ultimately show ?thesis
      using line by (simp add: newChanges_def transaction_def)
  qed
qed

subsection \<open>The directive string\<close>

lemma overview_directive:
  "settingsToCompactFrontMatterValue overviewSettings
     = ''auto, first-level 2, max 4, contents Overview, 1.A.''"
  by code_simp

lemma overview_parts:
  "split CHR '','' ''auto, first-level 2, max 4, contents Overview, 1.A.''
     = [''auto'', '' first-level 2'', '' max 4'', '' contents Overview'', '' 1.A.'']"
  by code_simp

lemma overview_trims:
  "trim ''auto'' = ''auto''"
  "trim '' first-level 2'' = ''first-level 2''"
  "trim '' max 4'' = ''max 4''"
  "trim '' contents Overview'' = ''contents Overview''"
  "trim '' 1.A.'' = ''1.A.''"
  by code_simp+

lemma overview_numbers:
  "parseInt ''2'' = Some 2"
  "parseInt ''4'' = Some 4"
  by code_simp+

lemma part_auto: "parsePart ext st ''auto'' = st\<lparr>auto := True\<rparr>"
  by (simp add: parsePart_def overview_trims)

lemma part_first_level:
  "isValidFirstOrMaxLevel ext 2 \<Longrightarrow> parsePart ext st '' first-level 2'' = st\<lparr>firstLevel := 2\<rparr>"
  by (simp add: parsePart_def overview_trims overview_numbers startsWith_def substring_def)

lemma part_max:
  "isValidFirstOrMaxLevel ext 4 \<Longrightarrow> parsePart ext st '' max 4'' = st\<lparr>maxLevel := 4\<rparr>"
  by (simp add: parsePart_def overview_trims overview_numbers startsWith_def substring_def)

lemma part_contents:
  "isValidContents ext ''Overview'' \<Longrightarrow>
     parsePart ext st '' contents Overview'' = st\<lparr>contents := ''Overview''\<rparr>"
  by (simp add: parsePart_def overview_trims startsWith_def substring_def)

lemma part_format:
  "parsePart ext st '' 1.A.''
     = st\<lparr>skipTopLevel := False, styleLevel1 := ''1'', styleLevelOther := ''A'', separator := ''.''\<rparr>"
  by (simp add: parsePart_def overview_trims startsWith_def
        updateSettingsFromFrontMatterFormatPart_def isStyleChar_def isSeparatorChar_def)

text \<open>
  Claim C6. The settings with auto numbering, first level 2, maximum level 4, contents
  heading Overview, no start value, the top level not skipped, styles \<open>1\<close> and \<open>A\<close> and
  separator \<open>.\<close> are written as \<open>auto, first-level 2, max 4, contents Overview, 1.A.\<close>,
  and reading that string gives the same settings, for validators that accept the levels
  2 and 4 and the contents heading and for defaults without a start value.
\<close>

theorem directive_round_trip:
  assumes "isValidFirstOrMaxLevel ext 2" and "isValidFirstOrMaxLevel ext 4"
    and "isValidContents ext ''Overview''" and "startAt (DEFAULT_SETTINGS ext) = []"
  shows "settingsToCompactFrontMatterValue overviewSettings
           = ''auto, first-level 2, max 4, contents Overview, 1.A.''
       \<and> parseCompactFrontMatterSettings ext
            (Some (settingsToCompactFrontMatterValue overviewSettings)) = Some overviewSettings"
proof -
  have "parseCompactFrontMatterSettings ext
          (Some ''auto, first-level 2, max 4, contents Overview, 1.A.'')
        = Some ((DEFAULT_SETTINGS ext)\<lparr>auto := True, firstLevel := 2, maxLevel := 4,
             contents := ''Overview'', skipTopLevel := False, styleLevel1 := ''1'',
             styleLevelOther := ''A'', separator := ''.''\<rparr>)"
    by (simp add: parseCompactFrontMatterSettings_def overview_parts part_auto
          part_first_level [OF assms(1)] part_max [OF assms(2)] part_contents [OF assms(3)]
          part_format)
  also have "(DEFAULT_SETTINGS ext)\<lparr>auto := True, firstLevel := 2, maxLevel := 4,
             contents := ''Overview'', skipTopLevel := False, styleLevel1 := ''1'',
             styleLevelOther := ''A'', separator := ''.''\<rparr> = overviewSettings"
    using assms(4) by (cases "DEFAULT_SETTINGS ext") (simp add: overviewSettings_def)
  finally show ?thesis
    by (simp only: overview_directive simp_thms)
qed

theorem directive_round_trip_witness:
  "isValidFirstOrMaxLevel exampleSettingsTypes 2 \<and> isValidFirstOrMaxLevel exampleSettingsTypes 4
   \<and> isValidContents exampleSettingsTypes ''Overview''
   \<and> startAt (DEFAULT_SETTINGS exampleSettingsTypes) = []
   \<and> settingsToCompactFrontMatterValue overviewSettings
        = ''auto, first-level 2, max 4, contents Overview, 1.A.''
   \<and> parseCompactFrontMatterSettings exampleSettingsTypes
        (Some (settingsToCompactFrontMatterValue overviewSettings)) = Some overviewSettings"
proof -
  have v: "isValidFirstOrMaxLevel exampleSettingsTypes 2"
    "isValidFirstOrMaxLevel exampleSettingsTypes 4"
    "isValidContents exampleSettingsTypes ''Overview''"
    "startAt (DEFAULT_SETTINGS exampleSettingsTypes) = []"
    by (simp_all add: exampleSettingsTypes_def defaultSettings_def)
  show ?thesis
    by (intro conjI v directive_round_trip [OF v, THEN conjunct1]
          directive_round_trip [OF v, THEN conjunct2])
qed

subsection \<open>A heading line without a marker run\<close>

lemma setext_first_heading:
  "numberingLoop defaultSettings setextDoc [setextHeadings ! 0] (initialState defaultSettings)
     = Some \<lparr>numberingStack = [Num 1], previousLevel = 1,
             changes = [\<lparr>change_text = ''# 1. '', change_from = \<lparr>line = 0, ch = 0\<rparr>,
                         change_to = \<lparr>line = 0, ch = 2\<rparr>\<rparr>]\<rparr>"
  by code_simp

lemma setext_second_heading:
  "headingStep defaultSettings setextDoc
     \<lparr>numberingStack = [Num 1], previousLevel = 1,
      changes = [\<lparr>change_text = ''# 1. '', change_from = \<lparr>line = 0, ch = 0\<rparr>,
                  change_to = \<lparr>line = 0, ch = 2\<rparr>\<rparr>]\<rparr>
     (setextHeadings ! 1) = None"
  by code_simp

lemma setext_numbering:
  "updateHeadingNumbering (Some \<lparr>vi_headings = Some setextHeadings, vi_editor = setextDoc\<rparr>)
     defaultSettings = None"
  by code_simp

lemma setext_remove_first:
  "removeLoop setextNumberedDoc [setextHeadings ! 0] []
     = Some [\<lparr>change_text = ''# '', change_from = \<lparr>line = 0, ch = 0\<rparr>,
              change_to = \<lparr>line = 0, ch = 5\<rparr>\<rparr>]"
  by code_simp

lemma setext_remove_second:
  "removeStep setextNumberedDoc
     [\<lparr>change_text = ''# '', change_from = \<lparr>line = 0, ch = 0\<rparr>, change_to = \<lparr>line = 0, ch = 5\<rparr>\<rparr>]
     (setextHeadings ! 1) = None"
  by code_simp

lemma setext_removal:
  "removeHeadingNumbering (Some \<lparr>vi_headings = Some setextHeadings, vi_editor = setextNumberedDoc\<rparr>)
     = None"
  by code_simp

text \<open>
  Claim C1, on the document \<open># Intro\<close>, \<open>Title\<close>, \<open>=====\<close> with the headings Intro and
  Title. Renumbering computes the edit \<open># 1. \<close> for Intro, leaves the function at Title,
  whose line has no marker run, and ends without a transaction; removal on the numbered
  document computes the edit \<open># \<close> for Intro and ends in the same way. The edit of the
  other heading is lost in both.
\<close>

theorem unrecognized_heading_drops_batch:
  "numberingLoop defaultSettings setextDoc [setextHeadings ! 0] (initialState defaultSettings)
     = Some \<lparr>numberingStack = [Num 1], previousLevel = 1,
             changes = [\<lparr>change_text = ''# 1. '', change_from = \<lparr>line = 0, ch = 0\<rparr>,
                         change_to = \<lparr>line = 0, ch = 2\<rparr>\<rparr>]\<rparr>
   \<and> headingStep defaultSettings setextDoc
       \<lparr>numberingStack = [Num 1], previousLevel = 1,
        changes = [\<lparr>change_text = ''# 1. '', change_from = \<lparr>line = 0, ch = 0\<rparr>,
                    change_to = \<lparr>line = 0, ch = 2\<rparr>\<rparr>]\<rparr>
       (setextHeadings ! 1) = None
   \<and> updateHeadingNumbering (Some \<lparr>vi_headings = Some setextHeadings, vi_editor = setextDoc\<rparr>)
       defaultSettings = None
   \<and> removeLoop setextNumberedDoc [setextHeadings ! 0] []
       = Some [\<lparr>change_text = ''# '', change_from = \<lparr>line = 0, ch = 0\<rparr>,
                change_to = \<lparr>line = 0, ch = 5\<rparr>\<rparr>]
   \<and> removeStep setextNumberedDoc
       [\<lparr>change_text = ''# '', change_from = \<lparr>line = 0, ch = 0\<rparr>, change_to = \<lparr>line = 0, ch = 5\<rparr>\<rparr>]
       (setextHeadings ! 1) = None
   \<and> removeHeadingNumbering
       (Some \<lparr>vi_headings = Some setextHeadings, vi_editor = setextNumberedDoc\<rparr>) = None"
  by (intro conjI setext_first_heading setext_second_heading setext_numbering
        setext_remove_first setext_remove_second setext_removal)

subsection \<open>Removal after numbering, with a skipped setext heading\<close>

lemma skip_numbering:
  "updateHeadingNumbering (Some \<lparr>vi_headings = Some skipHeadings, vi_editor = skipDoc\<rparr>) skipSettings
     = Some [\<lparr>change_text = ''## 1. '', change_from = \<lparr>line = 2, ch = 0\<rparr>,
              change_to = \<lparr>line = 2, ch = 3\<rparr>\<rparr>]"
  by code_simp

lemma skip_numbered:
  "transaction skipDoc [\<lparr>change_text = ''## 1. '', change_from = \<lparr>line = 2, ch = 0\<rparr>,
                         change_to = \<lparr>line = 2, ch = 3\<rparr>\<rparr>] = skipNumberedDoc"
  by (simp add: transaction_def skipDoc_def skipNumberedDoc_def replaceRange_line)

lemma skip_removal:
  "removeHeadingNumbering (Some \<lparr>vi_headings = Some skipHeadings, vi_editor = skipNumberedDoc\<rparr>)
     = None"
  by code_simp

text \<open>
  Claim C2, on the document \<open>Title\<close>, \<open>=====\<close>, \<open>## Intro\<close> with the top level skipped.
  Numbering writes \<open>## 1. Intro\<close>. Removal on that document leaves the function at the
  heading Title and ends without a transaction, so the line \<open>## 1. Intro\<close> keeps its
  number.
\<close>

theorem removal_after_numbering_keeps_number:
  "afterOperation skipDoc
     (updateHeadingNumbering (Some \<lparr>vi_headings = Some skipHeadings, vi_editor = skipDoc\<rparr>)
        skipSettings) = skipNumberedDoc
   \<and> \<not> excluded skipSettings (level (skipHeadings ! 1))
   \<and> afterOperation skipNumberedDoc
       (removeHeadingNumbering
          (Some \<lparr>vi_headings = Some skipHeadings, vi_editor = skipNumberedDoc\<rparr>))
       ! 2 = ''## 1. Intro''"
proof -
  have "\<not> excluded skipSettings (level (skipHeadings ! 1))"
    by (simp add: excluded_def skipSettings_def defaultSettings_def skipHeadings_def)
  moreover have "skipNumberedDoc ! 2 = ''## 1. Intro''"
    by (simp add: skipNumberedDoc_def)
  ultimately show ?thesis
    by (simp add: skip_numbering skip_removal afterOperation_def skip_numbered)
qed

subsection \<open>Concrete runs against the claims as stated\<close>

lemma shallow_run:
  "numberingLoop shallowSettings shallowDoc (take 2 shallowHeadings) (initialState shallowSettings)
     = Some \<lparr>numberingStack = [Num 1], previousLevel = 1,
             changes = [\<lparr>change_text = ''# 1. '', change_from = \<lparr>line = 0, ch = 0\<rparr>,
                         change_to = \<lparr>line = 0, ch = 2\<rparr>\<rparr>]\<rparr>"
  by code_simp

lemma nested_run:
  "numberingLoop skipSettings nestedDoc (take (Suc 0) nestedHeadings) (initialState skipSettings)
     = Some \<lparr>numberingStack = [Num 0], previousLevel = 2, changes = []\<rparr>"
  by code_simp

text \<open>
  Claim C4 as stated fails on excluded headings, for the well-nested levels 1 and 2. With
  the top level skipped, the stack has one entry after the first heading of \<open># Title\<close>,
  \<open>## Intro\<close>, not \<open>1 - 2 + 1\<close>. With a maximum level of 1, the stack has one entry
  after the second heading of \<open># Intro\<close>, \<open>## Background\<close>, not \<open>2 - 1 + 1\<close>.
\<close>

theorem stack_length_counterexample:
  "(\<exists>st. numberingLoop skipSettings nestedDoc (take (Suc 0) nestedHeadings)
           (initialState skipSettings) = Some st
        \<and> int (length (numberingStack st))
            \<noteq> level (nestedHeadings ! 0) - startLevelOf skipSettings + 1)
   \<and> (\<exists>st. numberingLoop shallowSettings shallowDoc (take 2 shallowHeadings)
           (initialState shallowSettings) = Some st
        \<and> int (length (numberingStack st))
            \<noteq> level (shallowHeadings ! 1) - startLevelOf shallowSettings + 1)"
proof -
  have "level (nestedHeadings ! 0) - startLevelOf skipSettings + 1 = 0"
    by (simp add: nestedHeadings_def skipSettings_def defaultSettings_def startLevelOf_def)
  moreover have "level (shallowHeadings ! 1) - startLevelOf shallowSettings + 1 = 2"
    by (simp add: shallowHeadings_def shallowSettings_def defaultSettings_def startLevelOf_def)
  ultimately show ?thesis
    by (simp add: nested_run shallow_run)
qed

lemma spaced_first_run:
  "updateHeadingNumbering (Some \<lparr>vi_headings = Some spacedHeadings, vi_editor = spacedDoc\<rparr>)
     spacedSettings
     = Some [\<lparr>change_text = ''### '', change_from = \<lparr>line = 0, ch = 0\<rparr>,
              change_to = \<lparr>line = 0, ch = 5\<rparr>\<rparr>]"
  by code_simp

lemma spaced_after_first_run:
  "transaction spacedDoc [\<lparr>change_text = ''### '', change_from = \<lparr>line = 0, ch = 0\<rparr>,
                           change_to = \<lparr>line = 0, ch = 5\<rparr>\<rparr>] = [''### 2020 plans'']"
  by (simp add: transaction_def spacedDoc_def replaceRange_line)

lemma spaced_second_run:
  "updateHeadingNumbering
     (Some \<lparr>vi_headings = Some spacedHeadings, vi_editor = [''### 2020 plans'']\<rparr>) spacedSettings
     = Some [\<lparr>change_text = ''### '', change_from = \<lparr>line = 0, ch = 0\<rparr>,
              change_to = \<lparr>line = 0, ch = 9\<rparr>\<rparr>]"
  by code_simp

text \<open>
  Claim C5 as stated fails on the line \<open>###  2020 plans\<close>, a heading below the
  maximum level 2 with two spaces after the marker run. The pattern matches the line
  and the heading has a marker run, so both runs go through the heading. The first run
  rewrites the prefix to \<open>### \<close> and the line becomes \<open>### 2020 plans\<close>; on that line
  the pattern takes \<open>2020 \<close> for a numbering, and the second run emits the edit that
  replaces \<open>### 2020 \<close> by \<open>### \<close>.
\<close>

theorem second_run_counterexample:
  "matchAnchored prefixRegex (headingLine spacedDoc (spacedHeadings ! 0)) = [''###  '']
   \<and> afterOperation spacedDoc
       (updateHeadingNumbering
          (Some \<lparr>vi_headings = Some spacedHeadings, vi_editor = spacedDoc\<rparr>) spacedSettings)
       = [''### 2020 plans'']
   \<and> updateHeadingNumbering
       (Some \<lparr>vi_headings = Some spacedHeadings,
              vi_editor = afterOperation spacedDoc
                (updateHeadingNumbering
                   (Some \<lparr>vi_headings = Some spacedHeadings, vi_editor = spacedDoc\<rparr>)
                   spacedSettings)\<rparr>)
       spacedSettings
       = Some [\<lparr>change_text = ''### '', change_from = \<lparr>line = 0, ch = 0\<rparr>,
                change_to = \<lparr>line = 0, ch = 9\<rparr>\<rparr>]"
proof -
  have "headingLine spacedDoc (spacedHeadings ! 0) = ''###  2020 plans''"
    by (simp add: headingLine_def getLine_def spacedDoc_def spacedHeadings_def)
  moreover have "matchAnchored prefixRegex ''###  2020 plans'' = [''###  '']"
    by code_simp
  ultimately show ?thesis
    by (simp add: spaced_first_run afterOperation_def spaced_after_first_run spaced_second_run)
qed

subsection \<open>The length of the numbering stack\<close>

lemma length_popPushNext: "length (popPushNext stack) = length stack"
  by (cases stack rule: rev_cases) (simp_all add: popPushNext_def)

lemma length_butlast_pow: "length ((butlast ^^ k) stack) = length stack - k"
  by (induction k) simp_all

lemma length_adjustStack:
  assumes "start \<le> prev" and "int (length stack) = prev - start + 1" and "start \<le> lv"
  shows "int (length (adjustStack settings lv prev stack)) = lv - start + 1"
proof -
  consider "lv = prev" | "lv < prev" | "prev < lv"
    by linarith
  then show ?thesis
  proof cases
    case 1
    then show ?thesis
      using assms(2) by (simp add: adjustStack_def length_popPushNext)
  next
    case 2
    have "length ((butlast ^^ nat (prev - lv)) stack) = length stack - nat (prev - lv)"
      by (rule length_butlast_pow)
    then have "int (length ((butlast ^^ nat (prev - lv)) stack)) = lv - start + 1"
      using assms 2 by linarith
    then show ?thesis
      using 2 by (simp add: adjustStack_def length_popPushNext)
  next
    case 3
    then show ?thesis
      using assms(2) by (simp add: adjustStack_def)
  qed
qed

lemma initialState_invariant: "stackInvariant settings (initialState settings)"
  by (simp add: stackInvariant_def initialState_def startLevelOf_def)

lemma start_le_level:
  assumes "\<not> excluded settings lv" and "1 \<le> lv"
  shows "startLevelOf settings \<le> lv"
  using assms by (auto simp: excluded_def startLevelOf_def)

lemma headingStep_excluded_state:
  assumes "excluded settings (level h)" and "headingStep settings e st h = Some st'"
  shows "numberingStack st' = numberingStack st \<and> previousLevel st' = previousLevel st"
  using assms by (auto simp: headingStep_def split: option.splits)

lemma headingStep_numbered_state:
  assumes "\<not> excluded settings (level h)" and "headingStep settings e st h = Some st'"
  shows "numberingStack st'
           = adjustStack settings (level h) (previousLevel st) (numberingStack st)
         \<and> previousLevel st' = level h"
  using assms by (auto simp: headingStep_def Let_def split: option.splits if_splits)

lemma headingStep_invariant:
  assumes "headingStep settings e st h = Some st'" and "stackInvariant settings st"
    and "1 \<le> level h"
  shows "stackInvariant settings st'"
proof (cases "excluded settings (level h)")
  case True
  then show ?thesis
    using headingStep_excluded_state [OF True assms(1)] assms(2)
    by (simp add: stackInvariant_def)
next
  case False
  note st' = headingStep_numbered_state [OF False assms(1)]
  have le: "startLevelOf settings \<le> level h"
    using False assms(3) by (rule start_le_level)
  have "int (length (numberingStack st')) = level h - startLevelOf settings + 1"
    using assms(2) le by (simp add: st' stackInvariant_def length_adjustStack)
  then show ?thesis
    using le by (simp add: stackInvariant_def st')
qed

lemma numberingLoop_invariant:
  assumes "numberingLoop settings e hs st = Some st'" and "stackInvariant settings st"
    and "\<forall>h \<in> set hs. 1 \<le> level h"
  shows "stackInvariant settings st'"
  using assms
proof (induction hs arbitrary: st)
  case Nil
  then show ?case by simp
next
  case (Cons h hs)
  from Cons.prems(1) obtain st1 where
    step: "headingStep settings e st h = Some st1"
    and rest: "numberingLoop settings e hs st1 = Some st'"
    by (auto split: option.splits)
  have "stackInvariant settings st1"
    using step Cons.prems(2,3) by (auto intro: headingStep_invariant)
  then show ?case
    using Cons.IH [OF rest] Cons.prems(3) by simp
qed

lemma numberingLoop_append:
  "numberingLoop settings e (hs @ [h]) st =
     (case numberingLoop settings e hs st of
        None \<Rightarrow> None
      | Some st1 \<Rightarrow> headingStep settings e st1 h)"
  by (induction hs arbitrary: st) (auto split: option.splits)

text \<open>
  Claim C4, amended. For every sequence of headings of positive levels, well nested or
  not, when the loop has processed a heading that is not excluded, the length of the
  stack is the level of that heading minus the start level plus one, and the previous
  level is that level.
\<close>

theorem stack_length_after_numbered_heading:
  assumes "numberingLoop settings e (take (Suc i) hs) (initialState settings) = Some st"
    and "i < length hs"
    and "\<forall>h \<in> set hs. 1 \<le> level h"
    and "\<not> excluded settings (level (hs ! i))"
  shows "int (length (numberingStack st)) = level (hs ! i) - startLevelOf settings + 1
         \<and> previousLevel st = level (hs ! i)"
proof -
  have pos: "\<forall>h \<in> set (take (Suc i) hs). 1 \<le> level h"
    using assms(3) by (meson in_set_takeD)
  have inv: "stackInvariant settings st"
    using assms(1) initialState_invariant pos by (rule numberingLoop_invariant)
  have split: "take (Suc i) hs = take i hs @ [hs ! i]"
    using assms(2) by (rule take_Suc_conv_app_nth)
  obtain st1 where "headingStep settings e st1 (hs ! i) = Some st"
    using assms(1) unfolding split numberingLoop_append by (auto split: option.splits)
  then have "previousLevel st = level (hs ! i)"
    using headingStep_numbered_state [OF assms(4)] by simp
  then show ?thesis
    using inv by (simp add: stackInvariant_def)
qed

theorem stack_length_after_numbered_heading_witness:
  "numberingLoop shallowSettings shallowDoc (take (Suc 0) shallowHeadings)
     (initialState shallowSettings)
     = Some \<lparr>numberingStack = [Num 1], previousLevel = 1,
             changes = [\<lparr>change_text = ''# 1. '', change_from = \<lparr>line = 0, ch = 0\<rparr>,
                         change_to = \<lparr>line = 0, ch = 2\<rparr>\<rparr>]\<rparr>
   \<and> 0 < length shallowHeadings
   \<and> list_all (\<lambda>h. 1 \<le> level h) shallowHeadings
   \<and> \<not> excluded shallowSettings (level (shallowHeadings ! 0))
   \<and> int (length [Num 1]) = level (shallowHeadings ! 0) - startLevelOf shallowSettings + 1"
proof -
  have run: "numberingLoop shallowSettings shallowDoc (take (Suc 0) shallowHeadings)
     (initialState shallowSettings)
     = Some \<lparr>numberingStack = [Num 1], previousLevel = 1,
             changes = [\<lparr>change_text = ''# 1. '', change_from = \<lparr>line = 0, ch = 0\<rparr>,
                         change_to = \<lparr>line = 0, ch = 2\<rparr>\<rparr>]\<rparr>"
    by code_simp
  have len: "0 < length shallowHeadings"
    by (simp add: shallowHeadings_def)
  have pos: "\<forall>h \<in> set shallowHeadings. 1 \<le> level h"
    by (simp add: shallowHeadings_def)
  have ex: "\<not> excluded shallowSettings (level (shallowHeadings ! 0))"
    by (simp add: excluded_def shallowSettings_def defaultSettings_def shallowHeadings_def)
  show ?thesis
    using stack_length_after_numbered_heading [OF run len pos ex] run len pos ex
    by (simp add: list_all_iff)
qed

subsection \<open>A heading line without a full-prefix match\<close>

lemma prefixLength_no_match: "matchAnchored prefixRegex l = [] \<Longrightarrow> prefixLength l = 0"
  by (simp add: prefixLength_def)

lemma headingStep_no_line:
  assumes "headingLine e h = []"
  shows "headingStep settings e st h = (if excluded settings (level h) then Some st else None)"
  using assms
  by (auto simp: headingStep_def getHeadingPrefixRange_line excluded_def Let_def)

lemma removeStep_no_line:
  assumes "headingLine e h = []"
  shows "removeStep e cs h = None"
  using assms by (simp add: removeStep_def getHeadingPrefixRange_line)

text \<open>
  Without a match the scanner takes the matched text to be empty and returns the empty
  range at column 0 of the line; it returns no range only for an empty or missing line.
\<close>

lemma getHeadingPrefixRange_no_match:
  assumes "matchAnchored prefixRegex (headingLine e h) = []"
  shows "getHeadingPrefixRange e h
           = (if headingLine e h = [] then None
              else Some \<lparr>range_from = \<lparr>line = start_line h, ch = 0\<rparr>,
                         range_to = \<lparr>line = start_line h, ch = 0\<rparr>\<rparr>)"
  using assms
  by (simp add: getHeadingPrefixRange_line prefixLength_no_match prefixRange_def)

lemma bare_no_match: "matchAnchored prefixRegex ''#'' = []"
  by code_simp

lemma bare_range:
  "getHeadingPrefixRange bareDoc (oneHeading ! 0)
     = Some \<lparr>range_from = \<lparr>line = 0, ch = 0\<rparr>, range_to = \<lparr>line = 0, ch = 0\<rparr>\<rparr>"
  by code_simp

lemma bare_numbering:
  "updateHeadingNumbering (Some \<lparr>vi_headings = Some oneHeading, vi_editor = bareDoc\<rparr>)
     defaultSettings
     = Some [\<lparr>change_text = ''# 1. '', change_from = \<lparr>line = 0, ch = 0\<rparr>,
              change_to = \<lparr>line = 0, ch = 0\<rparr>\<rparr>]"
  by code_simp

lemma bare_numbered:
  "transaction bareDoc [\<lparr>change_text = ''# 1. '', change_from = \<lparr>line = 0, ch = 0\<rparr>,
                         change_to = \<lparr>line = 0, ch = 0\<rparr>\<rparr>] = [''# 1. #'']"
  by (simp add: transaction_def bareDoc_def replaceRange_line)

lemma bare_removal:
  "removeHeadingNumbering (Some \<lparr>vi_headings = Some oneHeading, vi_editor = bareDoc\<rparr>)
     = Some [\<lparr>change_text = ''# '', change_from = \<lparr>line = 0, ch = 0\<rparr>,
              change_to = \<lparr>line = 0, ch = 0\<rparr>\<rparr>]"
  by code_simp

lemma bare_removed:
  "transaction bareDoc [\<lparr>change_text = ''# '', change_from = \<lparr>line = 0, ch = 0\<rparr>,
                         change_to = \<lparr>line = 0, ch = 0\<rparr>\<rparr>] = [''# #'']"
  by (simp add: transaction_def bareDoc_def replaceRange_line)

text \<open>
  Claim C7, on the document whose only line is the heading \<open>#\<close>. The full-prefix
  pattern has no match on the line, and the scanner returns the empty range at column 0
  instead of no range. The callers do not skip the heading: numbering inserts the whole
  prefix \<open># 1. \<close> at column 0, before the marker run, and the line becomes \<open># 1. #\<close>;
  removal inserts \<open># \<close> there, and the line becomes \<open># #\<close>.
\<close>

theorem no_match_doubles_marker:
  "getLine bareDoc (start_line (oneHeading ! 0)) = Some ''#''
   \<and> matchAnchored prefixRegex ''#'' = []
   \<and> getHeadingPrefixRange bareDoc (oneHeading ! 0)
       = Some \<lparr>range_from = \<lparr>line = 0, ch = 0\<rparr>, range_to = \<lparr>line = 0, ch = 0\<rparr>\<rparr>
   \<and> updateHeadingNumbering (Some \<lparr>vi_headings = Some oneHeading, vi_editor = bareDoc\<rparr>)
       defaultSettings
       = Some [\<lparr>change_text = ''# 1. '', change_from = \<lparr>line = 0, ch = 0\<rparr>,
                change_to = \<lparr>line = 0, ch = 0\<rparr>\<rparr>]
   \<and> afterOperation bareDoc
       (updateHeadingNumbering (Some \<lparr>vi_headings = Some oneHeading, vi_editor = bareDoc\<rparr>)
          defaultSettings) = [''# 1. #'']
   \<and> afterOperation bareDoc
       (removeHeadingNumbering (Some \<lparr>vi_headings = Some oneHeading, vi_editor = bareDoc\<rparr>))
       = [''# #'']"
proof -
  have "getLine bareDoc (start_line (oneHeading ! 0)) = Some ''#''"
    by (simp add: getLine_def bareDoc_def oneHeading_def)
  then show ?thesis
    by (simp add: bare_no_match bare_range bare_numbering bare_removal afterOperation_def
          bare_numbered bare_removed)
qed

subsection \<open>Excluded headings\<close>

lemma markerOf_shape:
  assumes "markerOf l = Some hash"
  shows "hash \<noteq> [] \<and> list_all isHash hash"
  using markerOf_Some [OF assms] by blast

lemma headingStep_excluded:
  assumes "excluded settings (level h)"
  shows "headingStep settings e st h =
     Some (case makeHeadingHashString e h of
             None \<Rightarrow> st
           | Some hash \<Rightarrow>
               st\<lparr>changes := replaceRangeSafely e (changes st)
                  (prefixRange (start_line h) (prefixLength (headingLine e h))) (hash @ '' '')\<rparr>)"
proof (cases "headingLine e h = []")
  case True
  then show ?thesis
    using assms by (simp add: headingStep_no_line makeHeadingHashString_line)
next
  case False
  then show ?thesis
    using assms
    by (simp add: headingStep_def getHeadingPrefixRange_line split: option.splits)
qed

text \<open>
  The step of an excluded heading leaves the numbering stack and the previous level as
  they are. When the line has a marker run, the step computes the replacement of the
  existing prefix by the marker run and one space, and with its edit (left out when the
  prefix is that text already) the line reads: marker run, one space, the text after the
  old prefix. When the line has no marker run the step emits nothing.
\<close>

lemma headingStep_excluded_line:
  assumes "excluded settings (level h)"
  shows "\<exists>st'. headingStep settings e st h = Some st'
      \<and> numberingStack st' = numberingStack st \<and> previousLevel st' = previousLevel st
      \<and> (case makeHeadingHashString e h of
            None \<Rightarrow> changes st' = changes st
          | Some hash \<Rightarrow>
              hash \<noteq> [] \<and> list_all isHash hash
              \<and> changes st' = replaceRangeSafely e (changes st)
                    (prefixRange (start_line h) (prefixLength (headingLine e h))) (hash @ '' '')
              \<and> list_all (\<lambda>c. change_text c = hash @ '' '')
                    (newChanges (changes st) (changes st'))
              \<and> transaction e (newChanges (changes st) (changes st')) ! start_line h
                    = hash @ '' '' @ drop (prefixLength (headingLine e h)) (headingLine e h))"
proof (cases "makeHeadingHashString e h")
  case None
  then show ?thesis
    by (simp add: headingStep_excluded [OF assms])
next
  case (Some hash)
  let ?n = "prefixLength (headingLine e h)"
  let ?cs = "replaceRangeSafely e (changes st) (prefixRange (start_line h) ?n) (hash @ '' '')"
  have line: "headingLine e h \<noteq> []" and marker: "markerOf (headingLine e h) = Some hash"
    using Some by (auto simp: makeHeadingHashString_line split: if_splits)
  note shape = markerOf_shape [OF marker]
  have nl: "CHR 0x0A \<notin> set (hash @ '' '')"
    using marker_no_newline [of hash] shape by simp
  have "transaction e (newChanges (changes st) ?cs)
          = e[start_line h := (hash @ '' '') @ drop ?n (headingLine e h)]"
    using line nl by (rule replaceRangeSafely_line)
  then have after: "transaction e (newChanges (changes st) ?cs) ! start_line h
          = hash @ '' '' @ drop ?n (headingLine e h)"
    using headingLine_Some [OF line] by simp
  have texts: "list_all (\<lambda>c. change_text c = hash @ '' '') (newChanges (changes st) ?cs)"
    by (simp add: replaceRangeSafely_def newChanges_def Let_def)
  show ?thesis
    using shape after texts by (simp add: headingStep_excluded [OF assms] Some)
qed

lemma deep_first_heading:
  "headingStep spacedSettings deepSetextDoc (initialState spacedSettings) (deepSetextHeadings ! 0)
     = Some \<lparr>numberingStack = [Num 0], previousLevel = 1,
             changes = [\<lparr>change_text = ''### '', change_from = \<lparr>line = 0, ch = 0\<rparr>,
                         change_to = \<lparr>line = 0, ch = 11\<rparr>\<rparr>]\<rparr>"
  by code_simp

lemma deep_second_heading:
  "headingStep spacedSettings deepSetextDoc
     \<lparr>numberingStack = [Num 0], previousLevel = 1,
      changes = [\<lparr>change_text = ''### '', change_from = \<lparr>line = 0, ch = 0\<rparr>,
                  change_to = \<lparr>line = 0, ch = 11\<rparr>\<rparr>]\<rparr>
     (deepSetextHeadings ! 1) = None"
  by code_simp

lemma deep_numbering:
  "updateHeadingNumbering
     (Some \<lparr>vi_headings = Some deepSetextHeadings, vi_editor = deepSetextDoc\<rparr>) spacedSettings
     = None"
  by code_simp

text \<open>
  Claim C8, on the document \<open>### 1.2.3. Details\<close>, \<open>Title\<close>, \<open>=====\<close> with the
  maximum level 2. The heading Details is excluded, and its step computes the edit that
  replaces \<open>### 1.2.3. \<close> by \<open>### \<close>. At the heading Title, whose line has no marker
  run, the function is left, so the operation ends without a transaction and the line
  of the excluded heading keeps its number.
\<close>

theorem excluded_heading_keeps_number:
  "excluded spacedSettings (level (deepSetextHeadings ! 0))
   \<and> headingStep spacedSettings deepSetextDoc (initialState spacedSettings)
       (deepSetextHeadings ! 0)
       = Some \<lparr>numberingStack = [Num 0], previousLevel = 1,
               changes = [\<lparr>change_text = ''### '', change_from = \<lparr>line = 0, ch = 0\<rparr>,
                           change_to = \<lparr>line = 0, ch = 11\<rparr>\<rparr>]\<rparr>
   \<and> headingStep spacedSettings deepSetextDoc
       \<lparr>numberingStack = [Num 0], previousLevel = 1,
        changes = [\<lparr>change_text = ''### '', change_from = \<lparr>line = 0, ch = 0\<rparr>,
                    change_to = \<lparr>line = 0, ch = 11\<rparr>\<rparr>]\<rparr>
       (deepSetextHeadings ! 1) = None
   \<and> updateHeadingNumbering
       (Some \<lparr>vi_headings = Some deepSetextHeadings, vi_editor = deepSetextDoc\<rparr>) spacedSettings
       = None
   \<and> afterOperation deepSetextDoc
       (updateHeadingNumbering
          (Some \<lparr>vi_headings = Some deepSetextHeadings, vi_editor = deepSetextDoc\<rparr>)
          spacedSettings) ! 0 = ''### 1.2.3. Details''"
proof -
  have ex: "excluded spacedSettings (level (deepSetextHeadings ! 0))"
    by (simp add: excluded_def spacedSettings_def defaultSettings_def deepSetextHeadings_def)
  have line: "deepSetextDoc ! 0 = ''### 1.2.3. Details''"
    by (simp add: deepSetextDoc_def)
  have after: "afterOperation deepSetextDoc
       (updateHeadingNumbering
          (Some \<lparr>vi_headings = Some deepSetextHeadings, vi_editor = deepSetextDoc\<rparr>)
          spacedSettings) ! 0 = ''### 1.2.3. Details''"
    by (simp add: deep_numbering afterOperation_def line)
  show ?thesis
    by (intro conjI ex deep_first_heading deep_second_heading deep_numbering after)
qed

subsection \<open>The contents list at the end of the document\<close>

lemma findEndingLine_bullets:
  assumes "list_all isBulletLine (drop n e)"
  shows "findEndingLine e startingLine n True = startingLine"
  using assms
proof (induction "length e - n" arbitrary: n)
  case 0
  then have "getLine e n = None"
    by (simp add: getLine_def)
  then show ?case
    by (subst findEndingLine.simps) simp
next
  case (Suc k)
  then have n: "n < length e"
    by simp
  then have d: "drop n e = e ! n # drop (Suc n) e"
    by (simp add: Cons_nth_drop_Suc)
  have b: "isBulletLine (e ! n)" and rest: "list_all isBulletLine (drop (Suc n) e)"
    using Suc.prems by (simp_all add: d)
  have nh: "\<not> startsWith (trimLeft (e ! n)) ''#''"
    using b by (auto simp: isBulletLine_def startsWith_def)
  have "findEndingLine e startingLine (Suc n) True = startingLine"
    using Suc.hyps(2) rest by (intro Suc.hyps(1)) simp_all
  then show ?case
    using n b nh
    by (subst findEndingLine.simps) (simp add: getLine_def isBulletLine_def)
qed

lemma findEndingLine_gap:
  assumes "drop n e = gap @ bullets" and "list_all isOtherLine gap"
    and "list_all isBulletLine bullets"
  shows "findEndingLine e startingLine n False = startingLine"
  using assms(1,2)
proof (induction gap arbitrary: n)
  case Nil
  show ?case
  proof (cases "n < length e")
    case False
    then have "getLine e n = None"
      by (simp add: getLine_def)
    then show ?thesis
      by (subst findEndingLine.simps) simp
  next
    case True
    then have d: "drop n e = e ! n # drop (Suc n) e"
      by (simp add: Cons_nth_drop_Suc)
    have "list_all isBulletLine (drop n e)"
      using Nil.prems(1) assms(3) by simp
    then have b: "isBulletLine (e ! n)" and rest: "list_all isBulletLine (drop (Suc n) e)"
      by (simp_all add: d)
    have "findEndingLine e startingLine (Suc n) True = startingLine"
      using rest by (rule findEndingLine_bullets)
    then show ?thesis
      using True b
      by (subst findEndingLine.simps) (simp add: getLine_def isBulletLine_def)
  qed
next
  case (Cons g gap)
  have n: "n < length e"
    using Cons.prems(1) by (cases "n < length e") simp_all
  then have d: "drop n e = e ! n # drop (Suc n) e"
    by (simp add: Cons_nth_drop_Suc)
  have g: "e ! n = g" and rest: "drop (Suc n) e = gap @ bullets"
    using Cons.prems(1) by (simp_all add: d)
  have other: "\<not> startsWith (trimLeft (e ! n)) ''-''" "\<not> startsWith (trimLeft (e ! n)) ''#''"
    using Cons.prems(2)
    by (auto simp: g isOtherLine_def isBulletLine_def isHeadingLine_def split: if_splits)
  have "findEndingLine e startingLine (Suc n) False = startingLine"
    using rest Cons.prems(2) by (intro Cons.IH) simp_all
  then show ?case
    using n other by (subst findEndingLine.simps) (simp add: getLine_def)
qed

lemma split_not_empty: "split c s \<noteq> []"
  by (induction s) (auto split: list.splits)

lemma split_snoc: "split c (s @ [c]) = split c s @ [[]]"
proof (induction s)
  case Nil
  show ?case by simp
next
  case (Cons x s)
  obtain p ps where "split c s = p # ps"
    using split_not_empty [of c s] by (cases "split c s") auto
  then show ?case
    using Cons.IH by simp
qed

lemma tocStep_newline:
  assumes "snd acc \<noteq> [] \<and> last (snd acc) = CHR 0x0A"
  shows "snd (tocStep settings acc h) \<noteq> [] \<and> last (snd (tocStep settings acc h)) = CHR 0x0A"
  using assms by (simp add: tocStep_def Let_def)

lemma toc_newline:
  assumes "snd acc \<noteq> [] \<and> last (snd acc) = CHR 0x0A"
  shows "snd (foldl (tocStep settings) acc hs) \<noteq> []
         \<and> last (snd (foldl (tocStep settings) acc hs)) = CHR 0x0A"
  using assms
proof (induction hs arbitrary: acc)
  case Nil
  then show ?case by simp
next
  case (Cons h hs)
  show ?case
    using Cons.IH [OF tocStep_newline [OF Cons.prems]] by simp
qed

text \<open>Text that ends a line, inserted at the start of a line, adds whole lines before it.\<close>

lemma insert_lines:
  assumes "l < length e" and "txt \<noteq> []" and "last txt = CHR 0x0A"
  shows "replaceRange txt \<lparr>line = l, ch = 0\<rparr> \<lparr>line = l, ch = 0\<rparr> e
           = take l e @ split (CHR 0x0A) (butlast txt) @ drop l e"
proof -
  have tx: "txt = butlast txt @ [CHR 0x0A]"
    using assms(2,3) by (metis append_butlast_last_id)
  obtain p ps where parts: "split (CHR 0x0A) (butlast txt) = p # ps"
    using split_not_empty [of "CHR 0x0A" "butlast txt"] by (cases "split (CHR 0x0A) (butlast txt)") auto
  have sp: "split (CHR 0x0A) txt = p # (ps @ [[]])"
    by (subst tx) (simp add: split_snoc parts)
  have "replaceRange txt \<lparr>line = l, ch = 0\<rparr> \<lparr>line = l, ch = 0\<rparr> e
          = take l e @ (p # ps @ [e ! l]) @ drop (l + 1) e"
    using assms(1)
    by (cases ps) (simp_all add: replaceRange_def clipPos_inside lineAt_def sp Let_def)
  also have "\<dots> = take l e @ (p # ps) @ drop l e"
    using assms(1) by (simp add: Cons_nth_drop_Suc)
  finally show ?thesis
    by (simp add: parts)
qed

text \<open>
  Claim C10. When the contents heading is found and the lines after it are some lines that
  start neither a list item nor a heading, followed by list items up to the last line of
  the document, the scan runs past the last line and the range is reset to the empty
  range at the start of the line after the heading. The edit inserts the new list there:
  the old list stays, after the new one.
\<close>

theorem contents_list_at_end:
  assumes "doesContentsHaveValue (contents settings)"
    and "foldl (tocStep settings) (None, [CHR 0x0A]) hs = (Some anchor, toc)"
    and "drop (start_line anchor + 1) e = gap @ bullets" and "bullets \<noteq> []"
    and "list_all isOtherLine gap" and "list_all isBulletLine bullets"
  shows "findEndingLine e (start_line anchor + 1) (start_line anchor + 1) False
           = start_line anchor + 1
       \<and> updateTableOfContents doesContentsHaveValue
            (Some \<lparr>vi_headings = Some hs, vi_editor = e\<rparr>) settings
           = (if toc = [CHR 0x0A] then None
              else Some [\<lparr>change_text = toc,
                          change_from = \<lparr>line = start_line anchor + 1, ch = 0\<rparr>,
                          change_to = \<lparr>line = start_line anchor + 1, ch = 0\<rparr>\<rparr>])
       \<and> afterOperation e (updateTableOfContents doesContentsHaveValue
            (Some \<lparr>vi_headings = Some hs, vi_editor = e\<rparr>) settings)
           = (if toc = [CHR 0x0A] then e
              else take (start_line anchor + 1) e @ split (CHR 0x0A) (butlast toc)
                     @ gap @ bullets)"
proof -
  let ?l = "start_line anchor + 1"
  have scan: "findEndingLine e ?l ?l False = ?l"
    using assms(3,5,6) by (rule findEndingLine_gap)
  have l: "?l < length e"
    using assms(3,4) by (cases "?l < length e") simp_all
  have nl: "toc \<noteq> [] \<and> last toc = CHR 0x0A"
    using toc_newline [of "(None, [CHR 0x0A])" settings hs] by (simp add: assms(2))
  have prev: "getRange e \<lparr>line = ?l, ch = 0\<rparr> \<lparr>line = ?l, ch = 0\<rparr> = []"
    using l by (simp add: getRange_line)
  have op: "updateTableOfContents doesContentsHaveValue
            (Some \<lparr>vi_headings = Some hs, vi_editor = e\<rparr>) settings
           = (if toc = [CHR 0x0A] then None
              else Some [\<lparr>change_text = toc, change_from = \<lparr>line = ?l, ch = 0\<rparr>,
                          change_to = \<lparr>line = ?l, ch = 0\<rparr>\<rparr>])"
    using assms(1) nl [THEN conjunct1, symmetric] scan prev
    by (simp add: updateTableOfContents_def assms(2) replaceRangeSafely_def Let_def)
  have "replaceRange toc \<lparr>line = ?l, ch = 0\<rparr> \<lparr>line = ?l, ch = 0\<rparr> e
          = take ?l e @ split (CHR 0x0A) (butlast toc) @ drop ?l e"
    using l nl by (intro insert_lines) simp_all
  then have after: "afterOperation e (updateTableOfContents doesContentsHaveValue
            (Some \<lparr>vi_headings = Some hs, vi_editor = e\<rparr>) settings)
           = (if toc = [CHR 0x0A] then e
              else take ?l e @ split (CHR 0x0A) (butlast toc) @ gap @ bullets)"
    using assms(3) by (simp add: op afterOperation_def transaction_def)
  show ?thesis
    using scan op after by blast
qed

theorem contents_list_at_end_witness:
  "contents contentsSettings \<noteq> []
   \<and> foldl (tocStep contentsSettings) (None, [CHR 0x0A]) contentsHeadings
       = (Some (contentsHeadings ! 1), contentsList)
   \<and> drop (start_line (contentsHeadings ! 1) + 1) contentsDoc = [[]] @ [''- old entry'']
   \<and> list_all isOtherLine [[]] \<and> list_all isBulletLine [''- old entry'']
   \<and> findEndingLine contentsDoc 2 2 False = 2
   \<and> updateTableOfContents (\<lambda>c. c \<noteq> [])
        (Some \<lparr>vi_headings = Some contentsHeadings, vi_editor = contentsDoc\<rparr>) contentsSettings
       = Some [\<lparr>change_text = contentsList, change_from = \<lparr>line = 2, ch = 0\<rparr>,
                change_to = \<lparr>line = 2, ch = 0\<rparr>\<rparr>]
   \<and> afterOperation contentsDoc (updateTableOfContents (\<lambda>c. c \<noteq> [])
        (Some \<lparr>vi_headings = Some contentsHeadings, vi_editor = contentsDoc\<rparr>) contentsSettings)
       = [''# Alpha'', ''# Contents'', [], ''- [[#Alpha|Alpha]]'', ''- [[#Contents|Contents]]'',
          [], ''- old entry'']"
proof -
  have c: "contents contentsSettings \<noteq> []"
    by (simp add: contentsSettings_def)
  have f: "foldl (tocStep contentsSettings) (None, [CHR 0x0A]) contentsHeadings
       = (Some (contentsHeadings ! 1), contentsList)"
    by code_simp
  have d: "drop (start_line (contentsHeadings ! 1) + 1) contentsDoc = [[]] @ [''- old entry'']"
    by (simp add: contentsHeadings_def contentsDoc_def)
  have b: "[''- old entry''] \<noteq> []"
    by simp
  have g: "list_all isOtherLine [[]]"
    by code_simp
  have i: "list_all isBulletLine [''- old entry'']"
    by code_simp
  have sl: "start_line (contentsHeadings ! 1) + 1 = 2"
    by (simp add: contentsHeadings_def)
  have ne: "contentsList \<noteq> [CHR 0x0A]"
    by (simp add: contentsList_def)
  have t: "take 2 contentsDoc = [''# Alpha'', ''# Contents'']"
    by (simp add: contentsDoc_def)
  have s: "split (CHR 0x0A) (butlast contentsList)
             = [[], ''- [[#Alpha|Alpha]]'', ''- [[#Contents|Contents]]'']"
    by (simp add: contentsList_def)
  note run = contents_list_at_end [of "\<lambda>c. c \<noteq> []", OF c f d b g i, unfolded sl]
  have scan: "findEndingLine contentsDoc 2 2 False = 2"
    using run by (rule conjunct1)
  have op: "updateTableOfContents (\<lambda>c. c \<noteq> [])
        (Some \<lparr>vi_headings = Some contentsHeadings, vi_editor = contentsDoc\<rparr>) contentsSettings
       = Some [\<lparr>change_text = contentsList, change_from = \<lparr>line = 2, ch = 0\<rparr>,
                change_to = \<lparr>line = 2, ch = 0\<rparr>\<rparr>]"
    using run [THEN conjunct2, THEN conjunct1] ne by (simp only: if_False)
  have after: "afterOperation contentsDoc (updateTableOfContents (\<lambda>c. c \<noteq> [])
        (Some \<lparr>vi_headings = Some contentsHeadings, vi_editor = contentsDoc\<rparr>) contentsSettings)
       = [''# Alpha'', ''# Contents'', [], ''- [[#Alpha|Alpha]]'', ''- [[#Contents|Contents]]'',
          [], ''- old entry'']"
    using run [THEN conjunct2, THEN conjunct2] ne by (simp only: if_False t s) simp
  show ?thesis
    by (intro conjI c f d g i scan op after)
qed

subsection \<open>The tokens on the stack\<close>

lemma goodToken_zeroth: "goodToken (zerothNumberingTokenInStyle style)"
  by (simp add: zerothNumberingTokenInStyle_def goodToken_def isUpper_def)

lemma goodToken_first: "goodToken (firstNumberingTokenInStyle style)"
  by (simp add: firstNumberingTokenInStyle_def goodToken_def isUpper_def)

lemma isUpper_next:
  assumes "isUpper c" and "c \<noteq> CHR ''Z''"
  shows "isUpper (char_of ((of_char c :: nat) + 1))"
proof -
  have "(of_char c :: nat) \<noteq> 90"
  proof
    assume "(of_char c :: nat) = 90"
    then have "char_of (of_char c :: nat) = (char_of (90 :: nat) :: char)"
      by simp
    then show False
      using assms(2) by (simp add: char_of_eq_iff)
  qed
  then have "65 \<le> (of_char c :: nat) + 1 \<and> (of_char c :: nat) + 1 \<le> 90"
    using assms(1) by (simp add: isUpper_def)
  then show ?thesis
    by (simp add: isUpper_def)
qed

lemma goodToken_next: "goodToken t \<Longrightarrow> goodToken (nextNumberingToken t)"
proof (cases t)
  case (Num n)
  then show ?thesis
    by (simp add: nextNumberingToken_def goodToken_def)
next
  case (Str s)
  assume "goodToken t"
  then obtain c where s: "s = [c]" and c: "isUpper c"
    using Str by (auto simp: goodToken_def split: list.splits)
  show ?thesis
  proof (cases "c = CHR ''Z''")
    case True
    then show ?thesis
      by (simp add: Str s nextNumberingToken_def goodToken_def isUpper_def)
  next
    case False
    then show ?thesis
      using isUpper_next [OF c False] by (simp add: Str s nextNumberingToken_def goodToken_def)
  qed
qed

lemma good_popPushNext: "list_all goodToken stack \<Longrightarrow> list_all goodToken (popPushNext stack)"
  by (cases stack rule: rev_cases) (simp_all add: popPushNext_def goodToken_next)

lemma good_butlast_pow: "list_all goodToken stack \<Longrightarrow> list_all goodToken ((butlast ^^ k) stack)"
proof (induction k)
  case 0
  then show ?case by simp
next
  case (Suc k)
  then have "list_all goodToken ((butlast ^^ k) stack)"
    by simp
  then have "list_all goodToken (butlast ((butlast ^^ k) stack))"
    by (auto simp: list_all_iff dest: in_set_butlastD)
  then show ?case
    by simp
qed

lemma good_adjustStack:
  assumes "list_all goodToken stack"
  shows "list_all goodToken (adjustStack settings lv prev stack)"
proof -
  have "list_all goodToken (replicate k (firstNumberingTokenInStyle style))" for k style
    by (simp add: list_all_iff goodToken_first)
  then show ?thesis
    using assms by (simp add: adjustStack_def good_popPushNext good_butlast_pow)
qed

lemma loopInvariant_initial: "loopInvariant settings (initialState settings)"
  using initialState_invariant [of settings]
  by (simp add: loopInvariant_def) (simp add: initialState_def goodToken_zeroth)

lemma loopInvariant_changes:
  "loopInvariant settings (st\<lparr>changes := cs\<rparr>) = loopInvariant settings st"
  by (simp add: loopInvariant_def stackInvariant_def)

lemma nextState_invariant:
  assumes "loopInvariant settings st" and "1 \<le> level h"
  shows "loopInvariant settings (nextState settings st h)"
proof (cases "excluded settings (level h)")
  case True
  then show ?thesis
    using assms(1) by (simp add: nextState_def)
next
  case False
  have le: "startLevelOf settings \<le> level h"
    using False assms(2) by (rule start_le_level)
  have "int (length (adjustStack settings (level h) (previousLevel st) (numberingStack st)))
          = level h - startLevelOf settings + 1"
    using assms(1) le by (simp add: loopInvariant_def stackInvariant_def length_adjustStack)
  then show ?thesis
    using False le assms(1)
    by (simp add: nextState_def loopInvariant_def stackInvariant_def good_adjustStack)
qed

lemma invariant_stack_not_empty:
  assumes "loopInvariant settings st"
  shows "numberingStack st \<noteq> []"
  using assms by (auto simp: loopInvariant_def stackInvariant_def)

subsection \<open>One step in terms of the heading's line\<close>

lemma replaceRangeSafely_prefix:
  assumes "headingLine e h \<noteq> []"
  shows "replaceRangeSafely e cs (prefixRange (start_line h) (prefixLength (headingLine e h))) txt
           = (if take (prefixLength (headingLine e h)) (headingLine e h) = txt then cs
              else cs @ [\<lparr>change_text = txt, change_from = \<lparr>line = start_line h, ch = 0\<rparr>,
                          change_to = \<lparr>line = start_line h,
                                        ch = prefixLength (headingLine e h)\<rparr>\<rparr>])"
  by (simp add: replaceRangeSafely_def prefixRange_def getRange_prefix [OF assms])

lemma markerOf_Some_line: "markerOf l = Some hash \<Longrightarrow> l \<noteq> []"
  using markerOf_empty by auto

lemma headingStep_line:
  "headingStep settings e st h =
     (case markerOf (headingLine e h) of
        None \<Rightarrow> (if excluded settings (level h) then Some st else None)
      | Some hash \<Rightarrow>
          Some ((nextState settings st h)\<lparr>changes :=
                  replaceRangeSafely e (changes st)
                    (prefixRange (start_line h) (prefixLength (headingLine e h)))
                    (replacementText settings st h hash)\<rparr>))"
proof (cases "excluded settings (level h)")
  case True
  then show ?thesis
    by (simp add: headingStep_excluded makeHeadingHashString_marker nextState_def
          replacementText_def split: option.splits)
next
  case False
  then have le: "\<not> maxLevel settings < level h"
    by (simp add: excluded_def)
  show ?thesis
  proof (cases "markerOf (headingLine e h)")
    case None
    then show ?thesis
      using False le
      by (simp add: headingStep_def makeHeadingHashString_marker Let_def split: option.splits)
  next
    case (Some hash)
    then have "headingLine e h \<noteq> []"
      by (rule markerOf_Some_line)
    then show ?thesis
      using False le Some
      by (simp add: headingStep_def makeHeadingHashString_marker getHeadingPrefixRange_line
            nextState_def replacementText_def Let_def)
  qed
qed

lemma replacementText_no_newline:
  assumes "list_all isHash hash" and "validSeparator (separator settings)"
    and "list_all goodToken (numberingStack (nextState settings st h))"
  shows "CHR 0x0A \<notin> set (replacementText settings st h hash)"
proof -
  have tok: "CHR 0x0A \<notin> set (tokenToString t)" if "goodToken t" for t
    using that
  proof (cases rule: tokenToString_cases)
    case (digits d ds)
    then show ?thesis
      by (auto simp: list_all_iff isDigit_def)
  next
    case (letter c)
    then show ?thesis
      by (auto simp: isUpper_def)
  qed
  have parts: "CHR 0x0A \<notin> set (numberingParts ts)" if "list_all goodToken ts" for ts
    using that by (induction ts) (simp_all add: tok)
  have "CHR 0x0A \<notin> set (makeNumberingString ts)" if "list_all goodToken ts" for ts
    using that by (cases ts) (simp_all add: makeNumberingString_def tok parts)
  moreover have "CHR 0x0A \<notin> set (separator settings)"
    using assms(2) by (auto simp: validSeparator_def)
  ultimately show ?thesis
    using marker_no_newline [OF assms(1)] assms(3) by (simp add: replacementText_def)
qed

subsection \<open>A line that carries the computed prefix is scanned as written\<close>

lemma settled_line_rescanned:
  assumes marker: "markerOf l = Some hash"
    and settled: "settledLine settings (level h) l"
    and sep: "validSeparator (separator settings)"
    and inv: "loopInvariant settings (nextState settings st h)"
  shows "markerOf (replacementText settings st h hash @ drop (prefixLength l) l) = Some hash
       \<and> prefixLength (replacementText settings st h hash @ drop (prefixLength l) l)
           = length (replacementText settings st h hash)"
proof -
  let ?rest = "drop (prefixLength l) l"
  note shape = markerOf_shape [OF marker]
  show ?thesis
  proof (cases "excluded settings (level h)")
    case True
    have fail: "ms bodyRegex ?rest = []"
      using settled True by (simp add: settledLine_def marker)
    have "firstMatch prefixRegex ((hash @ '' '') @ ?rest) = Some ?rest"
      using prefix_stripped_line [of hash ?rest] shape fail by simp
    then have len: "prefixLength ((hash @ '' '') @ ?rest) = length (hash @ '' '')"
      by (rule prefixLength_firstMatch)
    have "markerOf (hash @ CHR '' '' # ?rest) = Some hash"
      using shape by (intro markerOf_marker_line) (simp_all add: isHash_def)
    then show ?thesis
      using len True by (simp add: replacementText_def)
  next
    case False
    obtain t ts where stack: "numberingStack (nextState settings st h) = t # ts"
      using invariant_stack_not_empty [OF inv]
      by (cases "numberingStack (nextState settings st h)") auto
    have good: "goodToken t" "list_all goodToken ts"
      using inv by (simp_all add: loopInvariant_def stack)
    have rest: "dropWhile isSpace ?rest = ?rest"
      using settled False by (cases ?rest) (simp_all add: settledLine_def marker isSpace_def)
    let ?mid = "makeNumberingString (t # ts) @ separator settings"
    have "firstMatch prefixRegex (hash @ makeNumberingString (t # ts) @ separator settings
            @ CHR '' '' # ?rest) = Some ?rest"
      using prefix_numbered_line [of hash t ts "separator settings" ?rest] shape good sep rest
      by simp
    then have "firstMatch prefixRegex ((hash @ ?mid @ '' '') @ ?rest) = Some ?rest"
      by simp
    then have len: "prefixLength ((hash @ ?mid @ '' '') @ ?rest) = length (hash @ ?mid @ '' '')"
      by (rule prefixLength_firstMatch)
    have "markerOf (hash @ (?mid @ CHR '' '' # ?rest)) = Some hash"
      using shape by (intro markerOf_marker_line) (simp_all add: makeNumberingString_def isHash_def)
    then show ?thesis
      using len False by (simp add: replacementText_def stack)
  qed
qed

lemma nextState_changes:
  "nextState settings (st\<lparr>changes := c\<rparr>) h = (nextState settings st h)\<lparr>changes := c\<rparr>"
  by (simp add: nextState_def)

lemma replacementText_changes:
  "replacementText settings (st\<lparr>changes := c\<rparr>) h hash = replacementText settings st h hash"
  by (simp add: replacementText_def nextState_def)

lemma headingStep_rescanned:
  assumes "markerOf l = Some hash"
    and "settledLine settings (level h) l"
    and "validSeparator (separator settings)"
    and "loopInvariant settings (nextState settings st h)"
    and "headingLine E h = replacementText settings st h hash @ drop (prefixLength l) l"
  shows "headingStep settings E (st\<lparr>changes := c\<rparr>) h
           = Some ((nextState settings st h)\<lparr>changes := c\<rparr>)"
proof -
  let ?R = "replacementText settings st h hash"
  note scan = settled_line_rescanned [OF assms(1,2,3,4)]
  have m: "markerOf (headingLine E h) = Some hash"
    using scan by (simp add: assms(5))
  have n: "prefixLength (headingLine E h) = length ?R"
    using scan by (simp add: assms(5))
  have ne: "headingLine E h \<noteq> []"
    using m by (rule markerOf_Some_line)
  have "take (prefixLength (headingLine E h)) (headingLine E h) = ?R"
    by (simp add: n) (simp add: assms(5))
  then have "replaceRangeSafely E c
               (prefixRange (start_line h) (prefixLength (headingLine E h))) ?R = c"
    by (simp add: replaceRangeSafely_prefix [OF ne])
  then show ?thesis
    by (simp add: headingStep_line m nextState_changes replacementText_changes)
qed

subsection \<open>The document after the first run\<close>

lemma transaction_append: "transaction e (a @ b) = transaction (transaction e b) a"
  by (simp add: transaction_def)

lemma newChanges_append: "newChanges a (a @ b) = b"
  by (simp add: newChanges_def)

lemma headingStep_appends:
  assumes "headingStep settings e st h = Some st1"
  shows "\<exists>cs. changes st1 = changes st @ cs"
  using assms
  by (auto simp: headingStep_line replaceRangeSafely_def Let_def split: option.splits if_splits)

lemma numberingLoop_appends:
  assumes "numberingLoop settings e hs st = Some st'"
  shows "\<exists>cs. changes st' = changes st @ cs"
  using assms
proof (induction hs arbitrary: st)
  case Nil
  then show ?case by simp
next
  case (Cons h hs)
  from Cons.prems obtain st1 where
    step: "headingStep settings e st h = Some st1"
    and rest: "numberingLoop settings e hs st1 = Some st'"
    by (auto split: option.splits)
  from headingStep_appends [OF step] obtain a where "changes st1 = changes st @ a"
    by blast
  moreover from Cons.IH [OF rest] obtain b where "changes st' = changes st1 @ b"
    by blast
  ultimately have "changes st' = changes st @ (a @ b)"
    by simp
  then show ?case
    by blast
qed

text \<open>
  The edit of one heading, applied to a document that still has the heading's line as
  the run saw it.
\<close>

lemma step_transaction:
  assumes line: "headingLine e h \<noteq> []"
    and len: "length d = length e"
    and same: "d ! start_line h = e ! start_line h"
    and nl: "CHR 0x0A \<notin> set txt"
  shows "transaction d (newChanges cs
             (replaceRangeSafely e cs
                (prefixRange (start_line h) (prefixLength (headingLine e h))) txt))
           = d[start_line h := txt @ drop (prefixLength (headingLine e h)) (headingLine e h)]"
proof -
  let ?l = "start_line h" and ?n = "prefixLength (headingLine e h)"
  note l = headingLine_Some [OF line]
  have dl: "d ! ?l = headingLine e h"
    using l same by simp
  show ?thesis
  proof (cases "take ?n (headingLine e h) = txt")
    case True
    then have "txt @ drop ?n (headingLine e h) = d ! ?l"
      by (simp add: dl True [symmetric])
    then show ?thesis
      using True by (simp add: replaceRangeSafely_prefix [OF line] newChanges_def transaction_def)
  next
    case False
    have "replaceRange txt \<lparr>line = ?l, ch = 0\<rparr> \<lparr>line = ?l, ch = ?n\<rparr> d
            = d[?l := txt @ drop ?n (d ! ?l)]"
      using l len prefixLength_le [of "headingLine e h"] nl
      by (intro replaceRange_line) (simp_all add: dl)
    then show ?thesis
      using False
      by (simp add: replaceRangeSafely_prefix [OF line] newChanges_def transaction_def dl)
  qed
qed

subsection \<open>Lines the pattern matches\<close>

lemma firstMatch_Plus_space_rest:
  assumes "firstMatch (Plus (Lit CHR '' '')) x = Some t"
  shows "dropWhile isSpace t = t"
proof -
  from assms obtain c cs where "t = dropWhile isSpace cs"
    by (auto simp: Lit_space firstMatch_Plus_Sym split: list.splits if_splits)
  then show ?thesis
    by simp
qed

text \<open>
  After a match of the full-prefix pattern the text does not start with a space, so a
  numbered heading whose line the pattern matches is settled.
\<close>

lemma prefix_match_rest:
  assumes "firstMatch prefixRegex l = Some t"
  shows "dropWhile isSpace t = t"
proof -
  from firstMatch_Seq_member [OF assms [unfolded prefixRegex_def]] obtain x1 where
    "firstMatch (Seq (Plus (Lit CHR ''#'')) (Seq (Opt (Lit CHR '' ''))
       (Seq (Star numberGroup) (Seq (Opt lastToken) (Seq (Opt punct) (Plus (Lit CHR '' ''))))))) x1
     = Some t"
    by blast
  from firstMatch_Seq_member [OF this] obtain x2 where
    "firstMatch (Seq (Opt (Lit CHR '' ''))
       (Seq (Star numberGroup) (Seq (Opt lastToken) (Seq (Opt punct) (Plus (Lit CHR '' '')))))) x2
     = Some t"
    by blast
  from firstMatch_Seq_member [OF this] obtain x3 where
    "firstMatch (Seq (Star numberGroup) (Seq (Opt lastToken) (Seq (Opt punct)
       (Plus (Lit CHR '' ''))))) x3 = Some t"
    by blast
  from firstMatch_Seq_member [OF this] obtain x4 where
    "firstMatch (Seq (Opt lastToken) (Seq (Opt punct) (Plus (Lit CHR '' '')))) x4 = Some t"
    by blast
  from firstMatch_Seq_member [OF this] obtain x5 where
    "firstMatch (Seq (Opt punct) (Plus (Lit CHR '' ''))) x5 = Some t"
    by blast
  from firstMatch_Seq_member [OF this] obtain x6 where
    "firstMatch (Plus (Lit CHR '' '')) x6 = Some t"
    by blast
  then show ?thesis
    by (rule firstMatch_Plus_space_rest)
qed

lemma matched_numbered_line_settled:
  assumes "matchAnchored prefixRegex l \<noteq> []" and "\<not> excluded settings lv"
  shows "settledLine settings lv l"
proof -
  from assms(1) obtain t where fm: "firstMatch prefixRegex l = Some t"
    by (auto simp: matchAnchored_firstMatch split: option.splits)
  from firstMatch_suffix [OF fm] obtain u where l: "l = u @ t"
    by blast
  have "prefixLength l = length u"
    using fm unfolding l by (rule prefixLength_firstMatch)
  then have rest: "drop (prefixLength l) l = t"
    by (simp add: l)
  have "dropWhile isSpace t = t"
    using fm by (rule prefix_match_rest)
  then have "t = [] \<or> \<not> isSpace (hd t)"
    by (metis hd_dropWhile)
  then have "case t of [] \<Rightarrow> True | c # cs \<Rightarrow> c \<noteq> CHR '' ''"
    by (cases t) (simp_all add: isSpace_def)
  then show ?thesis
    using assms(2) by (simp add: settledLine_def rest split: option.splits)
qed

lemma ms_Seq_nonempty: "ms (Seq a b) s \<noteq> [] \<longleftrightarrow> (\<exists>x \<in> set (ms a s). ms b x \<noteq> [])"
  by simp

text \<open>A line the full-prefix pattern matches has a marker run.\<close>

lemma prefix_match_marker:
  assumes "matchAnchored prefixRegex l \<noteq> []"
  shows "markerOf l \<noteq> None"
proof -
  have "ms prefixRegex l \<noteq> []"
    using assms by (auto simp: matchAnchored_def)
  then obtain x where x: "x \<in> set (ms ws04 l)"
    and "ms (Seq (Plus (Lit CHR ''#'')) (Seq (Opt (Lit CHR '' ''))
           (Seq (Star numberGroup) (Seq (Opt lastToken) (Seq (Opt punct)
              (Plus (Lit CHR '' ''))))))) x \<noteq> []"
    unfolding prefixRegex_def ms_Seq_nonempty by blast
  then have "ms (Plus (Lit CHR ''#'')) x \<noteq> []"
    unfolding ms_Seq_nonempty [of "Plus (Lit CHR ''#'')"] by force
  with x have "ms markerRegex l \<noteq> []"
    unfolding markerRegex_def ms_Seq_nonempty by blast
  then show ?thesis
    by (simp add: markerOf_def matchAnchored_def split: list.splits)
qed

lemma matchedLine_settled:
  assumes "matchedLine settings lv l"
  shows "settledLine settings lv l"
proof (cases "excluded settings lv")
  case True
  then show ?thesis
    using assms by (auto simp: matchedLine_def settledLine_def split: option.splits)
next
  case False
  then show ?thesis
    using assms by (simp add: matchedLine_def matched_numbered_line_settled)
qed

lemma matchedHeadings_settled:
  "matchedHeadings settings e hs \<Longrightarrow> settledHeadings settings e hs"
  by (simp add: matchedHeadings_def settledHeadings_def list_all_iff matchedLine_settled)

lemma matchedLine_step:
  assumes "matchedLine settings (level h) (headingLine e h)"
  shows "headingStep settings e st h \<noteq> None"
proof (cases "excluded settings (level h)")
  case True
  then show ?thesis
    by (simp add: headingStep_line split: option.splits)
next
  case False
  then have "markerOf (headingLine e h) \<noteq> None"
    using assms by (simp add: matchedLine_def prefix_match_marker)
  then show ?thesis
    by (auto simp: headingStep_line)
qed

text \<open>On matched heading lines the run goes through every heading.\<close>

lemma numberingLoop_completes:
  "matchedHeadings settings e hs \<Longrightarrow> \<exists>st'. numberingLoop settings e hs st = Some st'"
proof (induction hs arbitrary: st)
  case Nil
  then show ?case
    by simp
next
  case (Cons h hs)
  then have "matchedLine settings (level h) (headingLine e h)"
    and rest: "matchedHeadings settings e hs"
    by (simp_all add: matchedHeadings_def)
  from matchedLine_step [OF this(1)] obtain st1 where
    "headingStep settings e st h = Some st1"
    by blast
  then show ?case
    using Cons.IH [OF rest, of st1] by simp
qed

lemma updateHeadingNumbering_document:
  assumes "numberingLoop settings e hs (initialState settings) = Some st"
  shows "afterOperation e
           (updateHeadingNumbering (Some \<lparr>vi_headings = Some hs, vi_editor = e\<rparr>) settings)
         = transaction e (newChanges (changes (initialState settings)) (changes st))"
  using assms
  by (simp add: updateHeadingNumbering_def afterOperation_def newChanges_def initialState_def
      transaction_def)

subsection \<open>The second run\<close>

lemma headingLine_agree:
  assumes "length E = length e"
    and "start_line h < length e \<Longrightarrow> E ! start_line h = d ! start_line h"
    and "start_line h < length e \<Longrightarrow> d ! start_line h = x"
    and "\<not> start_line h < length e \<Longrightarrow> x = []"
  shows "headingLine E h = x"
  using assms by (cases "start_line h < length e") (simp_all add: headingLine_def getLine_def)

lemma second_run_loop:
  assumes sep: "validSeparator (separator settings)"
  shows "numberingLoop settings e hs st = Some st' \<Longrightarrow> loopInvariant settings st \<Longrightarrow>
     positiveLevels hs \<Longrightarrow> distinct (map start_line hs) \<Longrightarrow> settledHeadings settings e hs \<Longrightarrow>
       length (transaction e (newChanges (changes st) (changes st'))) = length e
     \<and> (\<forall>l. l < length e \<and> l \<notin> start_line ` set hs \<longrightarrow>
            transaction e (newChanges (changes st) (changes st')) ! l = e ! l)
     \<and> (\<forall>E c. length E = length e
            \<and> agreeOnHeadings hs (length e) E
                 (transaction e (newChanges (changes st) (changes st')))
            \<longrightarrow> numberingLoop settings E hs (st\<lparr>changes := c\<rparr>) = Some (st'\<lparr>changes := c\<rparr>))"
proof (induction hs arbitrary: st)
  case Nil
  then show ?case
    by (simp add: newChanges_def transaction_def)
next
  case (Cons h hs)
  let ?l = "start_line h" and ?L = "headingLine e h"
  let ?n = "prefixLength (headingLine e h)"
  from Cons.prems(1) obtain st1 where
    step: "headingStep settings e st h = Some st1"
    and rest: "numberingLoop settings e hs st1 = Some st'"
    by (auto split: option.splits)
  have lv: "1 \<le> level h" and lvs: "positiveLevels hs"
    using Cons.prems(3) by (simp_all add: positiveLevels_def)
  have fresh: "?l \<notin> start_line ` set hs" and dist: "distinct (map start_line hs)"
    using Cons.prems(4) by simp_all
  have settled: "settledLine settings (level h) ?L" and settleds: "settledHeadings settings e hs"
    using Cons.prems(5) by (simp_all add: settledHeadings_def)
  have inv_next: "loopInvariant settings (nextState settings st h)"
    using Cons.prems(2) lv by (rule nextState_invariant)
  from headingStep_appends [OF step] obtain a where a: "changes st1 = changes st @ a"
    by blast
  from numberingLoop_appends [OF rest] obtain b where b: "changes st' = changes st1 @ b"
    by blast
  let ?D' = "transaction e (newChanges (changes st1) (changes st'))"
  let ?D = "transaction e (newChanges (changes st) (changes st'))"
  have "newChanges (changes st1) (changes st') = b"
    unfolding b by (rule newChanges_append)
  moreover have "newChanges (changes st) (changes st') = a @ b"
    using newChanges_append [of "changes st" "a @ b"] by (simp add: a b)
  ultimately have D: "?D = transaction ?D' a"
    by (simp add: transaction_append)
  show ?case
  proof (cases "markerOf ?L")
    case None
    have st1: "st1 = st"
      using step None by (simp add: headingStep_line split: if_splits)
    have ex: "excluded settings (level h)"
      using step None by (simp add: headingStep_line split: if_splits)
    note IH = Cons.IH [OF rest [unfolded st1] Cons.prems(2) lvs dist settleds]
    have DD: "?D = transaction e (newChanges (changes st) (changes st'))"
      by simp
    have len: "length ?D = length e"
      using IH by simp
    have other: "\<forall>l. l < length e \<and> l \<notin> start_line ` set (h # hs) \<longrightarrow> ?D ! l = e ! l"
      using IH by simp
    have again: "numberingLoop settings E (h # hs) (st\<lparr>changes := c\<rparr>) = Some (st'\<lparr>changes := c\<rparr>)"
      if E: "length E = length e" "agreeOnHeadings (h # hs) (length e) E ?D" for E c
    proof -
      have "headingLine E h = ?L"
      proof (rule headingLine_agree [OF E(1)])
        show "E ! ?l = ?D ! ?l" if "?l < length e"
          using E(2) that by (simp add: agreeOnHeadings_def)
        show "?D ! ?l = ?L" if "?l < length e"
          using IH fresh that by (simp add: headingLine_in_range)
        show "?L = []" if "\<not> ?l < length e"
          using that by (simp add: headingLine_def getLine_def)
      qed
      then have "headingStep settings E (st\<lparr>changes := c\<rparr>) h = Some (st\<lparr>changes := c\<rparr>)"
        using None ex by (simp add: headingStep_line)
      moreover have "numberingLoop settings E hs (st\<lparr>changes := c\<rparr>) = Some (st'\<lparr>changes := c\<rparr>)"
        using IH E by (simp add: agreeOnHeadings_def)
      ultimately show ?thesis
        by simp
    qed
    show ?thesis
      using len other again by blast
  next
    case (Some hash)
    let ?R = "replacementText settings st h hash"
    have line: "?L \<noteq> []"
      using Some by (rule markerOf_Some_line)
    note l = headingLine_Some [OF line]
    have st1: "st1 = (nextState settings st h)\<lparr>changes :=
                 replaceRangeSafely e (changes st) (prefixRange ?l ?n) ?R\<rparr>"
      using step Some by (simp add: headingStep_line)
    have inv1: "loopInvariant settings st1"
      using inv_next by (simp add: st1 loopInvariant_changes)
    note IH = Cons.IH [OF rest inv1 lvs dist settleds]
    have a': "a = newChanges (changes st) (replaceRangeSafely e (changes st) (prefixRange ?l ?n) ?R)"
      using a by (simp add: st1 newChanges_def)
    have nl: "CHR 0x0A \<notin> set ?R"
      using markerOf_shape [OF Some] sep inv_next
      by (intro replacementText_no_newline) (simp_all add: loopInvariant_def)
    have same: "?D' ! ?l = e ! ?l"
      using IH fresh l by simp
    have len': "length ?D' = length e"
      using IH by simp
    have upd: "?D = ?D'[?l := ?R @ drop ?n ?L]"
      unfolding D a' using line len' same nl by (rule step_transaction)
    have len: "length ?D = length e"
      by (simp add: upd len')
    have other: "\<forall>l. l < length e \<and> l \<notin> start_line ` set (h # hs) \<longrightarrow> ?D ! l = e ! l"
      using IH by (simp add: upd)
    have again: "numberingLoop settings E (h # hs) (st\<lparr>changes := c\<rparr>) = Some (st'\<lparr>changes := c\<rparr>)"
      if E: "length E = length e" "agreeOnHeadings (h # hs) (length e) E ?D" for E c
    proof -
      have "E ! ?l = ?D ! ?l"
        using E(2) l by (simp add: agreeOnHeadings_def)
      also have "\<dots> = ?R @ drop ?n ?L"
        using l len' by (simp add: upd)
      finally have "headingLine E h = ?R @ drop ?n ?L"
        using l [THEN conjunct1] E(1) by (simp add: headingLine_in_range)
      with Some settled sep inv_next
      have "headingStep settings E (st\<lparr>changes := c\<rparr>) h
              = Some ((nextState settings st h)\<lparr>changes := c\<rparr>)"
        by (rule headingStep_rescanned)
      then have first: "headingStep settings E (st\<lparr>changes := c\<rparr>) h = Some (st1\<lparr>changes := c\<rparr>)"
        by (simp add: st1)
      have "agreeOnHeadings hs (length e) E ?D'"
        unfolding agreeOnHeadings_def list_all_iff
      proof
        fix h'
        assume h': "h' \<in> set hs"
        then have ne: "?l \<noteq> start_line h'"
          using fresh by auto
        have "if start_line h' < length e then E ! start_line h' = ?D ! start_line h' else True"
          using E(2) h' by (simp add: agreeOnHeadings_def list_all_iff)
        then show "if start_line h' < length e then E ! start_line h' = ?D' ! start_line h'
                   else True"
          using ne by (simp add: upd)
      qed
      then have "numberingLoop settings E hs (st1\<lparr>changes := c\<rparr>) = Some (st'\<lparr>changes := c\<rparr>)"
        using IH E(1) by simp
      then show ?thesis
        using first by simp
    qed
    show ?thesis
      using len other again by blast
  qed
qed

lemma agreeOnHeadings_refl: "agreeOnHeadings hs n d d"
  by (simp add: agreeOnHeadings_def list_all_iff)

text \<open>
  Claim C5, amended. Consider separators of the pattern, headings of positive levels on
  pairwise different lines, and a document whose heading lines are matched. The first
  run of the numbering goes through every heading. The second run, on the document left
  by the first with the same headings and settings, goes through every heading as well
  and computes no edit: every replacement it computes is the text already in its range,
  and it ends without a transaction.
\<close>

theorem second_run_emits_no_edit:
  assumes "validSeparator (separator settings)"
    and "positiveLevels hs"
    and "distinct (map start_line hs)"
    and "matchedHeadings settings e hs"
  shows "numberingLoop settings e hs (initialState settings) \<noteq> None
     \<and> (\<exists>st. numberingLoop settings
               (afterOperation e
                  (updateHeadingNumbering (Some \<lparr>vi_headings = Some hs, vi_editor = e\<rparr>) settings))
               hs (initialState settings) = Some st
             \<and> changes st = [])
     \<and> updateHeadingNumbering
           (Some \<lparr>vi_headings = Some hs,
                  vi_editor = afterOperation e
                    (updateHeadingNumbering (Some \<lparr>vi_headings = Some hs, vi_editor = e\<rparr>) settings)\<rparr>)
           settings = None"
proof -
  let ?d = "afterOperation e
              (updateHeadingNumbering (Some \<lparr>vi_headings = Some hs, vi_editor = e\<rparr>) settings)"
  from numberingLoop_completes [OF assms(4)] obtain st' where
    run: "numberingLoop settings e hs (initialState settings) = Some st'"
    by blast
  have D: "transaction e (newChanges (changes (initialState settings)) (changes st')) = ?d"
    using run by (rule updateHeadingNumbering_document [symmetric])
  note settled = matchedHeadings_settled [OF assms(4)]
  note loop = second_run_loop [OF assms(1) run loopInvariant_initial assms(2,3) settled,
      unfolded D]
  have "numberingLoop settings ?d hs ((initialState settings)\<lparr>changes := []\<rparr>)
          = Some (st'\<lparr>changes := []\<rparr>)"
    using loop agreeOnHeadings_refl by blast
  moreover have "(initialState settings)\<lparr>changes := []\<rparr> = initialState settings"
    by (simp add: initialState_def)
  ultimately have again: "numberingLoop settings ?d hs (initialState settings)
          = Some (st'\<lparr>changes := []\<rparr>)"
    by simp
  then have "updateHeadingNumbering (Some \<lparr>vi_headings = Some hs, vi_editor = ?d\<rparr>) settings
               = None"
    by (simp add: updateHeadingNumbering_def)
  moreover have "\<exists>st. numberingLoop settings ?d hs (initialState settings) = Some st
                   \<and> changes st = []"
    using again by simp
  ultimately show ?thesis
    using run by simp
qed

theorem second_run_emits_no_edit_witness:
  "validSeparator (separator shallowSettings)
   \<and> positiveLevels shallowHeadings
   \<and> distinct (map start_line shallowHeadings)
   \<and> matchedHeadings shallowSettings shallowDoc shallowHeadings
   \<and> numberingLoop shallowSettings shallowDoc shallowHeadings (initialState shallowSettings)
       \<noteq> None
   \<and> (\<exists>st. numberingLoop shallowSettings
               (afterOperation shallowDoc
                  (updateHeadingNumbering
                     (Some \<lparr>vi_headings = Some shallowHeadings, vi_editor = shallowDoc\<rparr>)
                     shallowSettings))
               shallowHeadings (initialState shallowSettings) = Some st
             \<and> changes st = [])
   \<and> updateHeadingNumbering
        (Some \<lparr>vi_headings = Some shallowHeadings,
               vi_editor = afterOperation shallowDoc
                 (updateHeadingNumbering
                    (Some \<lparr>vi_headings = Some shallowHeadings, vi_editor = shallowDoc\<rparr>)
                    shallowSettings)\<rparr>)
        shallowSettings = None"
proof -
  have sep: "validSeparator (separator shallowSettings)"
    by (simp add: validSeparator_def shallowSettings_def defaultSettings_def)
  have pos: "positiveLevels shallowHeadings"
    by (simp add: positiveLevels_def shallowHeadings_def)
  have dist: "distinct (map start_line shallowHeadings)"
    by (simp add: shallowHeadings_def)
  have matched: "matchedHeadings shallowSettings shallowDoc shallowHeadings"
    by code_simp
  note run = second_run_emits_no_edit [OF sep pos dist matched]
  show ?thesis
    by (intro conjI sep pos dist matched run [THEN conjunct1]
          run [THEN conjunct2, THEN conjunct1] run [THEN conjunct2, THEN conjunct2])
qed

subsection \<open>Removal after numbering, when neither run returns early\<close>

lemma drop_prefixLength:
  assumes "firstMatch prefixRegex l = Some t"
  shows "drop (prefixLength l) l = t"
proof -
  from firstMatch_suffix [OF assms] obtain u where l: "l = u @ t"
    by blast
  have "prefixLength l = length u"
    using assms unfolding l by (rule prefixLength_firstMatch)
  then show ?thesis
    by (simp add: l)
qed

lemma removeStep_line:
  "removeStep e cs h =
     (case markerOf (headingLine e h) of
        None \<Rightarrow> None
      | Some hash \<Rightarrow>
          Some (replaceRangeSafely e cs
                  (prefixRange (start_line h) (prefixLength (headingLine e h))) (hash @ '' '')))"
proof (cases "headingLine e h = []")
  case True
  then show ?thesis
    by (simp add: removeStep_no_line markerOf_empty)
next
  case False
  then show ?thesis
    by (simp add: removeStep_def getHeadingPrefixRange_line makeHeadingHashString_marker)
qed

lemma removeStep_appends:
  assumes "removeStep e cs h = Some cs1"
  shows "\<exists>a. cs1 = cs @ a"
  using assms
  by (auto simp: removeStep_line replaceRangeSafely_def Let_def split: option.splits if_splits)

lemma removeLoop_appends:
  assumes "removeLoop e hs cs = Some cs'"
  shows "\<exists>b. cs' = cs @ b"
  using assms
proof (induction hs arbitrary: cs)
  case Nil
  then show ?case by simp
next
  case (Cons h hs)
  from Cons.prems obtain cs1 where
    step: "removeStep e cs h = Some cs1" and rest: "removeLoop e hs cs1 = Some cs'"
    by (auto split: option.splits)
  from removeStep_appends [OF step] obtain a where "cs1 = cs @ a"
    by blast
  moreover from Cons.IH [OF rest] obtain b where "cs' = cs1 @ b"
    by blast
  ultimately have "cs' = cs @ (a @ b)"
    by simp
  then show ?case
    by blast
qed

text \<open>The document after a removal that does not return early.\<close>

lemma removal_document:
  "removeLoop e hs cs = Some cs' \<Longrightarrow> distinct (map start_line hs) \<Longrightarrow>
     length (transaction e (newChanges cs cs')) = length e
     \<and> (\<forall>l. l < length e \<and> l \<notin> start_line ` set hs \<longrightarrow>
            transaction e (newChanges cs cs') ! l = e ! l)
     \<and> (\<forall>h \<in> set hs. \<exists>hash. markerOf (headingLine e h) = Some hash
            \<and> transaction e (newChanges cs cs') ! start_line h
                = hash @ '' '' @ drop (prefixLength (headingLine e h)) (headingLine e h))"
proof (induction hs arbitrary: cs)
  case Nil
  then show ?case
    by (simp add: newChanges_def transaction_def)
next
  case (Cons h hs)
  let ?l = "start_line h" and ?L = "headingLine e h"
  let ?n = "prefixLength (headingLine e h)"
  from Cons.prems(1) obtain cs1 where
    step: "removeStep e cs h = Some cs1" and rest: "removeLoop e hs cs1 = Some cs'"
    by (auto split: option.splits)
  from step obtain hash where marker: "markerOf ?L = Some hash"
    and cs1: "cs1 = replaceRangeSafely e cs (prefixRange ?l ?n) (hash @ '' '')"
    by (auto simp: removeStep_line split: option.splits)
  have fresh: "?l \<notin> start_line ` set hs" and dist: "distinct (map start_line hs)"
    using Cons.prems(2) by simp_all
  note IH = Cons.IH [OF rest dist]
  from removeStep_appends [OF step] obtain a where a: "cs1 = cs @ a"
    by blast
  from removeLoop_appends [OF rest] obtain b where b: "cs' = cs1 @ b"
    by blast
  let ?D' = "transaction e (newChanges cs1 cs')"
  let ?D = "transaction e (newChanges cs cs')"
  have "newChanges cs1 cs' = b"
    unfolding b by (rule newChanges_append)
  moreover have "newChanges cs cs' = a @ b"
    using newChanges_append [of cs "a @ b"] by (simp add: a b)
  ultimately have D: "?D = transaction ?D' a"
    by (simp add: transaction_append)
  have line: "?L \<noteq> []"
    using marker by (rule markerOf_Some_line)
  note l = headingLine_Some [OF line]
  have a': "a = newChanges cs (replaceRangeSafely e cs (prefixRange ?l ?n) (hash @ '' ''))"
    using a by (simp add: cs1 newChanges_def)
  have nl: "CHR 0x0A \<notin> set (hash @ '' '')"
    using marker_no_newline [of hash] markerOf_shape [OF marker] by simp
  have same: "?D' ! ?l = e ! ?l"
    using IH fresh l by simp
  have len': "length ?D' = length e"
    using IH by simp
  have upd: "?D = ?D'[?l := (hash @ '' '') @ drop ?n ?L]"
    unfolding D a' using line len' same nl by (rule step_transaction)
  have len: "length ?D = length e"
    by (simp add: upd len')
  have other: "\<forall>l. l < length e \<and> l \<notin> start_line ` set (h # hs) \<longrightarrow> ?D ! l = e ! l"
    using IH by (simp add: upd)
  have lines: "\<forall>h' \<in> set (h # hs). \<exists>hash'. markerOf (headingLine e h') = Some hash'
            \<and> ?D ! start_line h'
                = hash' @ '' '' @ drop (prefixLength (headingLine e h')) (headingLine e h')"
  proof
    fix h'
    assume "h' \<in> set (h # hs)"
    then consider "h' = h" | "h' \<in> set hs"
      by auto
    then show "\<exists>hash'. markerOf (headingLine e h') = Some hash'
            \<and> ?D ! start_line h'
                = hash' @ '' '' @ drop (prefixLength (headingLine e h')) (headingLine e h')"
    proof cases
      case 1
      have "?D ! ?l = hash @ '' '' @ drop ?n ?L"
        using l [THEN conjunct1] len' by (simp add: upd)
      then show ?thesis
        using marker by (simp add: 1)
    next
      case 2
      then have "?l \<noteq> start_line h'"
        using fresh by auto
      then have "?D ! start_line h' = ?D' ! start_line h'"
        by (simp add: upd)
      then show ?thesis
        using IH 2 by simp
    qed
  qed
  show ?case
    using len other lines by blast
qed

text \<open>The lines of the numbered headings after a numbering run that does not return early.\<close>

lemma numbering_document:
  assumes sep: "validSeparator (separator settings)"
  shows "numberingLoop settings e hs st = Some st' \<Longrightarrow> loopInvariant settings st \<Longrightarrow>
     positiveLevels hs \<Longrightarrow> distinct (map start_line hs) \<Longrightarrow>
       length (transaction e (newChanges (changes st) (changes st'))) = length e
     \<and> (\<forall>l. l < length e \<and> l \<notin> start_line ` set hs \<longrightarrow>
            transaction e (newChanges (changes st) (changes st')) ! l = e ! l)
     \<and> (\<forall>h \<in> set hs.
           (\<not> excluded settings (level h) \<longrightarrow>
            (\<exists>hash t ts. markerOf (headingLine e h) = Some hash
                   \<and> goodToken t \<and> list_all goodToken ts
                   \<and> transaction e (newChanges (changes st) (changes st')) ! start_line h
                       = hash @ makeNumberingString (t # ts) @ separator settings @ '' ''
                           @ drop (prefixLength (headingLine e h)) (headingLine e h)))
         \<and> (excluded settings (level h) \<longrightarrow>
            (\<forall>hash. markerOf (headingLine e h) = Some hash \<longrightarrow>
               transaction e (newChanges (changes st) (changes st')) ! start_line h
                 = hash @ '' '' @ drop (prefixLength (headingLine e h)) (headingLine e h))))"
proof (induction hs arbitrary: st)
  case Nil
  then show ?case
    by (simp add: newChanges_def transaction_def)
next
  case (Cons h hs)
  let ?l = "start_line h" and ?L = "headingLine e h"
  let ?n = "prefixLength (headingLine e h)"
  let ?P = "\<lambda>d h.
           (\<not> excluded settings (level h) \<longrightarrow>
            (\<exists>hash t ts. markerOf (headingLine e h) = Some hash
                   \<and> goodToken t \<and> list_all goodToken ts
                   \<and> d ! start_line h
                       = hash @ makeNumberingString (t # ts) @ separator settings @ '' ''
                           @ drop (prefixLength (headingLine e h)) (headingLine e h)))
         \<and> (excluded settings (level h) \<longrightarrow>
            (\<forall>hash. markerOf (headingLine e h) = Some hash \<longrightarrow>
               d ! start_line h
                 = hash @ '' '' @ drop (prefixLength (headingLine e h)) (headingLine e h)))"
  from Cons.prems(1) obtain st1 where
    step: "headingStep settings e st h = Some st1"
    and rest: "numberingLoop settings e hs st1 = Some st'"
    by (auto split: option.splits)
  have lv: "1 \<le> level h" and lvs: "positiveLevels hs"
    using Cons.prems(3) by (simp_all add: positiveLevels_def)
  have fresh: "?l \<notin> start_line ` set hs" and dist: "distinct (map start_line hs)"
    using Cons.prems(4) by simp_all
  have inv_next: "loopInvariant settings (nextState settings st h)"
    using Cons.prems(2) lv by (rule nextState_invariant)
  from headingStep_appends [OF step] obtain a where a: "changes st1 = changes st @ a"
    by blast
  from numberingLoop_appends [OF rest] obtain b where b: "changes st' = changes st1 @ b"
    by blast
  let ?D' = "transaction e (newChanges (changes st1) (changes st'))"
  let ?D = "transaction e (newChanges (changes st) (changes st'))"
  have "newChanges (changes st1) (changes st') = b"
    unfolding b by (rule newChanges_append)
  moreover have "newChanges (changes st) (changes st') = a @ b"
    using newChanges_append [of "changes st" "a @ b"] by (simp add: a b)
  ultimately have D: "?D = transaction ?D' a"
    by (simp add: transaction_append)
  show ?case
  proof (cases "markerOf ?L")
    case None
    have st1: "st1 = st"
      using step None by (simp add: headingStep_line split: if_splits)
    have ex: "excluded settings (level h)"
      using step None by (simp add: headingStep_line split: if_splits)
    note IH = Cons.IH [OF rest [unfolded st1] Cons.prems(2) lvs dist]
    have lines: "\<forall>h' \<in> set (h # hs). ?P ?D h'"
    proof
      fix h'
      assume "h' \<in> set (h # hs)"
      then consider "h' = h" | "h' \<in> set hs"
        by auto
      then show "?P ?D h'"
      proof cases
        case 1
        then show ?thesis
          using ex None by simp
      next
        case 2
        then show ?thesis
          using IH by blast
      qed
    qed
    have "length ?D = length e"
      using IH by blast
    moreover have "\<forall>l. l < length e \<and> l \<notin> start_line ` set (h # hs) \<longrightarrow> ?D ! l = e ! l"
      using IH by simp
    ultimately show ?thesis
      using lines by blast
  next
    case (Some hash)
    let ?R = "replacementText settings st h hash"
    have line: "?L \<noteq> []"
      using Some by (rule markerOf_Some_line)
    note l = headingLine_Some [OF line]
    have st1: "st1 = (nextState settings st h)\<lparr>changes :=
                 replaceRangeSafely e (changes st) (prefixRange ?l ?n) ?R\<rparr>"
      using step Some by (simp add: headingStep_line)
    have inv1: "loopInvariant settings st1"
      using inv_next by (simp add: st1 loopInvariant_changes)
    note IH = Cons.IH [OF rest inv1 lvs dist]
    have a': "a = newChanges (changes st) (replaceRangeSafely e (changes st) (prefixRange ?l ?n) ?R)"
      using a by (simp add: st1 newChanges_def)
    have nl: "CHR 0x0A \<notin> set ?R"
      using markerOf_shape [OF Some] sep inv_next
      by (intro replacementText_no_newline) (simp_all add: loopInvariant_def)
    have same: "?D' ! ?l = e ! ?l"
      using IH fresh l by simp
    have len': "length ?D' = length e"
      using IH by simp
    have upd: "?D = ?D'[?l := ?R @ drop ?n ?L]"
      unfolding D a' using line len' same nl by (rule step_transaction)
    have len: "length ?D = length e"
      by (simp add: upd len')
    have other: "\<forall>l. l < length e \<and> l \<notin> start_line ` set (h # hs) \<longrightarrow> ?D ! l = e ! l"
      using IH by (simp add: upd)
    have here: "?D ! ?l = ?R @ drop ?n ?L"
      using l [THEN conjunct1] len' by (simp add: upd)
    have lines: "\<forall>h' \<in> set (h # hs). ?P ?D h'"
    proof
      fix h'
      assume "h' \<in> set (h # hs)"
      then consider "h' = h" | "h' \<in> set hs"
        by auto
      then show "?P ?D h'"
      proof cases
        case 1
        show ?thesis
        proof (cases "excluded settings (level h)")
          case True
          have "?D ! ?l = hash @ '' '' @ drop ?n ?L"
            using True by (simp add: here replacementText_def)
          then show ?thesis
            using True Some by (simp add: 1)
        next
          case False
          obtain t ts where stack: "numberingStack (nextState settings st h) = t # ts"
            using invariant_stack_not_empty [OF inv_next]
            by (cases "numberingStack (nextState settings st h)") auto
          have good: "goodToken t" "list_all goodToken ts"
            using inv_next by (simp_all add: loopInvariant_def stack)
          have "?D ! ?l = hash @ makeNumberingString (t # ts) @ separator settings @ '' ''
                  @ drop ?n ?L"
            using False by (simp add: here replacementText_def stack)
          then have "markerOf ?L = Some hash \<and> goodToken t \<and> list_all goodToken ts
              \<and> ?D ! ?l = hash @ makeNumberingString (t # ts) @ separator settings @ '' ''
                  @ drop ?n ?L"
            using Some good by simp
          then show ?thesis
            using False unfolding 1 by blast
        qed
      next
        case 2
        then have "?l \<noteq> start_line h'"
          using fresh by auto
        then have "?D ! start_line h' = ?D' ! start_line h'"
          by (simp add: upd)
        moreover have "?P ?D' h'"
          using IH 2 by blast
        ultimately show ?thesis
          by (simp only:)
      qed
    qed
    show ?thesis
      using len other lines by blast
  qed
qed

lemma removeHeadingNumbering_document:
  assumes "removeLoop d hs [] = Some cs"
  shows "afterOperation d (removeHeadingNumbering (Some \<lparr>vi_headings = Some hs, vi_editor = d\<rparr>))
         = transaction d (newChanges [] cs)"
  using assms
  by (simp add: removeHeadingNumbering_def afterOperation_def newChanges_def transaction_def)

text \<open>
  When the numbering does not return early, the line of every excluded heading with a
  marker run reads after the operation: marker run, one space, the text after the old
  prefix.
\<close>

lemma excluded_heading_after_numbering:
  assumes sep: "validSeparator (separator settings)"
    and pos: "positiveLevels hs"
    and dist: "distinct (map start_line hs)"
    and add: "numberingLoop settings e hs (initialState settings) = Some st"
    and h: "h \<in> set hs" "excluded settings (level h)"
    and marker: "markerOf (headingLine e h) = Some hash"
  shows "afterOperation e
           (updateHeadingNumbering (Some \<lparr>vi_headings = Some hs, vi_editor = e\<rparr>) settings)
           ! start_line h
         = hash @ '' '' @ drop (prefixLength (headingLine e h)) (headingLine e h)"
proof -
  note doc = numbering_document [OF sep add loopInvariant_initial pos dist]
  have "transaction e (newChanges (changes (initialState settings)) (changes st)) ! start_line h
          = hash @ '' '' @ drop (prefixLength (headingLine e h)) (headingLine e h)"
    using doc h marker by blast
  then show ?thesis
    by (simp only: updateHeadingNumbering_document [OF add])
qed

text \<open>The heading \<open>### 1.2.3. Details\<close> alone, with the maximum level 2.\<close>

lemma excluded_heading_after_numbering_example:
  "afterOperation deepDoc
     (updateHeadingNumbering (Some \<lparr>vi_headings = Some deepHeadings, vi_editor = deepDoc\<rparr>)
        spacedSettings) ! 0 = ''### Details''"
proof -
  let ?h = "\<lparr>heading = ''1.2.3. Details'', level = 3, start_line = 0\<rparr>"
  have sep: "validSeparator (separator spacedSettings)"
    by (simp add: validSeparator_def spacedSettings_def defaultSettings_def)
  have pos: "positiveLevels deepHeadings"
    by (simp add: positiveLevels_def deepHeadings_def)
  have dist: "distinct (map start_line deepHeadings)"
    by (simp add: deepHeadings_def)
  have "numberingLoop spacedSettings deepDoc deepHeadings (initialState spacedSettings) \<noteq> None"
    by code_simp
  then obtain st where
    add: "numberingLoop spacedSettings deepDoc deepHeadings (initialState spacedSettings) = Some st"
    by blast
  have h: "?h \<in> set deepHeadings" "excluded spacedSettings (level ?h)"
    by (simp_all add: deepHeadings_def excluded_def spacedSettings_def defaultSettings_def)
  have line: "headingLine deepDoc ?h = ''### 1.2.3. Details''"
    by (simp add: headingLine_def getLine_def deepDoc_def)
  have marker: "markerOf (headingLine deepDoc ?h) = Some ''###''"
    unfolding line by code_simp
  have len: "prefixLength ''### 1.2.3. Details'' = 11"
    by code_simp
  from excluded_heading_after_numbering [OF sep pos dist add h marker] show ?thesis
    by (simp add: line len)
qed

text \<open>
  When neither operation returns early, removing the numbering after adding it leaves, on
  the line of every numbered heading, the marker, one space and the heading text: the
  text that followed the prefix scanned on the original line, without its leading spaces.
\<close>

lemma removal_after_numbering:
  assumes sep: "validSeparator (separator settings)"
    and pos: "positiveLevels hs"
    and dist: "distinct (map start_line hs)"
    and add: "numberingLoop settings e hs (initialState settings) = Some st"
    and d: "d = afterOperation e
                  (updateHeadingNumbering (Some \<lparr>vi_headings = Some hs, vi_editor = e\<rparr>) settings)"
    and rem: "removeLoop d hs [] = Some cs"
    and h: "h \<in> set hs" "\<not> excluded settings (level h)"
  shows "\<exists>hash. markerOf (headingLine e h) = Some hash
     \<and> afterOperation d (removeHeadingNumbering (Some \<lparr>vi_headings = Some hs, vi_editor = d\<rparr>))
         ! start_line h
       = hash @ '' '' @ dropWhile isSpace (drop (prefixLength (headingLine e h)) (headingLine e h))"
proof -
  let ?L = "headingLine e h"
  let ?rest = "drop (prefixLength ?L) ?L"
  have D: "d = transaction e (newChanges (changes (initialState settings)) (changes st))"
    unfolding d using add by (rule updateHeadingNumbering_document)
  note first = numbering_document [OF sep add loopInvariant_initial pos dist, folded D]
  from first h obtain hash t ts where marker: "markerOf ?L = Some hash"
    and good: "goodToken t" "list_all goodToken ts"
    and line: "d ! start_line h
                 = hash @ makeNumberingString (t # ts) @ separator settings @ '' '' @ ?rest"
    by blast
  note shape = markerOf_shape [OF marker]
  have "?L \<noteq> []"
    using marker by (rule markerOf_Some_line)
  then have "start_line h < length e"
    using headingLine_Some by blast
  then have "start_line h < length d"
    using first by simp
  then have L': "headingLine d h
                   = hash @ makeNumberingString (t # ts) @ separator settings @ '' '' @ ?rest"
    by (simp add: headingLine_in_range line)
  have "firstMatch prefixRegex (headingLine d h) = Some (dropWhile isSpace ?rest)"
    unfolding L' using prefix_numbered_line [of hash t ts "separator settings" ?rest] shape good sep
    by simp
  then have rest': "drop (prefixLength (headingLine d h)) (headingLine d h) = dropWhile isSpace ?rest"
    by (rule drop_prefixLength)
  have "markerOf (hash @ (makeNumberingString (t # ts) @ separator settings @ '' '' @ ?rest))
          = Some hash"
    using shape by (intro markerOf_marker_line) (simp_all add: makeNumberingString_def isHash_def)
  then have marker': "markerOf (headingLine d h) = Some hash"
    by (simp add: L')
  note second = removal_document [OF rem dist]
  from second h(1) obtain hash' where "markerOf (headingLine d h) = Some hash'"
    and "transaction d (newChanges [] cs) ! start_line h
           = hash' @ '' '' @ drop (prefixLength (headingLine d h)) (headingLine d h)"
    by blast
  then have "transaction d (newChanges [] cs) ! start_line h
               = hash @ '' '' @ dropWhile isSpace ?rest"
    using marker' rest' by simp
  then show ?thesis
    using marker by (simp add: removeHeadingNumbering_document [OF rem])
qed

text \<open>The example of five headings: removal after numbering restores \<open># Methods\<close>.\<close>

lemma removal_after_numbering_example:
  "afterOperation
     [''# 1. Intro'', ''## 1.1. Background'', ''## 1.2. Related Work'', ''# 2. Methods'',
      ''## 2.1. Setup'']
     (removeHeadingNumbering (Some \<lparr>vi_headings = Some exampleHeadings, vi_editor =
        [''# 1. Intro'', ''## 1.1. Background'', ''## 1.2. Related Work'', ''# 2. Methods'',
         ''## 2.1. Setup'']\<rparr>)) ! 3 = ''# Methods''"
proof -
  let ?d = "[''# 1. Intro'', ''## 1.1. Background'', ''## 1.2. Related Work'', ''# 2. Methods'',
             ''## 2.1. Setup'']"
  let ?h = "\<lparr>heading = ''Methods'', level = 1, start_line = 3\<rparr>"
  have sep: "validSeparator (separator defaultSettings)"
    by (simp add: validSeparator_def defaultSettings_def)
  have pos: "positiveLevels exampleHeadings"
    by (simp add: positiveLevels_def exampleHeadings_def)
  have dist: "distinct (map start_line exampleHeadings)"
    by (simp add: exampleHeadings_def)
  have "numberingLoop defaultSettings exampleDoc exampleHeadings (initialState defaultSettings)
          \<noteq> None"
    by code_simp
  then obtain st where
    add: "numberingLoop defaultSettings exampleDoc exampleHeadings (initialState defaultSettings)
            = Some st"
    by blast
  have "updateHeadingNumbering
          (Some \<lparr>vi_headings = Some exampleHeadings, vi_editor = exampleDoc\<rparr>) defaultSettings
          = Some exampleChanges"
    by (rule example_batch) (simp_all add: defaultSettings_def)
  then have d: "?d = afterOperation exampleDoc (updateHeadingNumbering
                  (Some \<lparr>vi_headings = Some exampleHeadings, vi_editor = exampleDoc\<rparr>)
                  defaultSettings)"
    by (simp add: afterOperation_def example_transaction)
  have "removeLoop ?d exampleHeadings [] \<noteq> None"
    by code_simp
  then obtain cs where rem: "removeLoop ?d exampleHeadings [] = Some cs"
    by blast
  have h: "?h \<in> set exampleHeadings" "\<not> excluded defaultSettings (level ?h)"
    by (simp_all add: exampleHeadings_def excluded_def defaultSettings_def)
  have line: "headingLine exampleDoc ?h = ''# Methods''"
    by (simp add: headingLine_def getLine_def exampleDoc_def)
  have marker: "markerOf ''# Methods'' = Some ''#''"
    by code_simp
  have len: "prefixLength ''# Methods'' = 2"
    by code_simp
  from removal_after_numbering [OF sep pos dist add d rem h] show ?thesis
    by (simp add: line marker len isSpace_def)
qed

end
